theory Spec2Isabelle
  imports Complex_Main "HOL-Library.AList"
begin

section \<open>The segment state index of RUTH (src/ruth/globalview.py)\<close>

text \<open>
  The class \<open>GlobalView\<close> keeps, per road segment, the floating car data (FCD) seen on
  it, the segment each vehicle was last seen on, and the set of segments modified since
  the last drain. This theory embeds its methods as functions on an explicit state.

  Conventions of the embedding:
  \<^item> Python floats are modelled by the reals: every arithmetic operation is exact. The
    value \<open>float("inf")\<close> is the separate constructor \<open>PosInf\<close> of \<open>pyfloat\<close>. The
    level of service is modelled a second time in double precision, with every
    operation rounded, for the one property that depends on the rounding.
  \<^item> \<open>datetime\<close> and \<open>timedelta\<close> values are integers (a count of microseconds); the
    bounded range of Python's datetime is not modelled.
  \<^item> A \<open>dict\<close> that the code iterates over is an association list in insertion order
    (\<open>AList.update\<close> overwrites in place and appends a new key at the end, as a Python
    dict does); a \<open>dict\<close> that is only read and written by key is a map.
  \<^item> The \<open>set\<close> of modified segments is a list: its order stands for the iteration order
    of the Python set, which the language leaves open. \<open>set.add\<close> is \<open>List.insert\<close>.
  \<^item> Exceptions are values of \<open>py_error\<close>, returned on the left of a sum.
  \<^item> The \<open>print\<close> of the jam branch writes to standard output only and is left out.
\<close>

subsection \<open>Data\<close>

text \<open>\<open>SegmentId\<close> is declared in data/segment.py; it is only hashed and compared.\<close>

type_synonym SegmentId = string

type_synonym time = int

text \<open>The segment interface the code reads: \<open>segment.id\<close>, \<open>segment.length\<close>, \<open>segment.lanes\<close>.\<close>

record Segment =
  seg_id :: SegmentId
  seg_length :: real
  lanes :: int

text \<open>The fields of an FCD record the code reads.\<close>

record FCDRecord =
  datetime :: time
  vehicle_id :: int
  vehicle_type :: string
  segment :: Segment
  start_offset :: real
  speed :: real

text \<open>The entries of the vehicle class table (vehicle_types.py): the attributes read.\<close>

record VehicleParams =
  name :: string
  pcu :: real
  length_m :: real
  standstill_gap_m :: real

text \<open>
  The table \<open>DEFAULT_VEHICLE_CLASSES\<close> itself is not part of the sources at hand: it is a
  parameter of the functions that read it.
\<close>

type_synonym vehicle_classes = "string \<rightharpoonup> VehicleParams"

record GlobalView =
  fcd_by_segment :: "(SegmentId \<times> FCDRecord list) list"
  car_to_segment :: "int \<rightharpoonup> SegmentId"
  modified_segments :: "SegmentId list"

datatype py_error = KeyError | ZeroDivisionError

datatype pyfloat = Fin real | PosInf

text \<open>\<open>GlobalView.__init__\<close>\<close>

definition init :: GlobalView where
  "init = \<lparr>fcd_by_segment = [], car_to_segment = Map.empty, modified_segments = []\<rparr>"

text \<open>
  \<open>self.fcd_by_segment.get(segment_id, [])\<close>: the stored sequence, the empty one for an
  absent key; the dict is not changed.
\<close>

definition observations :: "GlobalView \<Rightarrow> SegmentId \<Rightarrow> FCDRecord list" where
  "observations g sid = (case map_of (fcd_by_segment g) sid of None \<Rightarrow> [] | Some fs \<Rightarrow> fs)"

text \<open>
  \<open>self.fcd_by_segment[segment_id]\<close> on the \<open>defaultdict(list)\<close>: an absent key is
  inserted with an empty list, and the list is returned together with the dict.
\<close>

definition getitem_default ::
  "(SegmentId \<times> FCDRecord list) list \<Rightarrow> SegmentId \<Rightarrow> FCDRecord list \<times> (SegmentId \<times> FCDRecord list) list" where
  "getitem_default d sid =
     (case map_of d sid of
        None \<Rightarrow> ([], d @ [(sid, [])])
      | Some fs \<Rightarrow> (fs, d))"

subsection \<open>Ingestion: \<open>add\<close>\<close>

definition add :: "GlobalView \<Rightarrow> FCDRecord \<Rightarrow> GlobalView" where
  "add g fcd =
     (let sid = seg_id (segment fcd);
          (fs, d) = getitem_default (fcd_by_segment g) sid;
          g1 = g\<lparr>fcd_by_segment := AList.update sid (fs @ [fcd]) d\<rparr>;
          g2 = g1\<lparr>modified_segments := List.insert sid (modified_segments g1)\<rparr>
      in case car_to_segment g2 (vehicle_id fcd) of
           Some old_segment \<Rightarrow>
             if old_segment \<noteq> sid
             then g2\<lparr>modified_segments := List.insert old_segment (modified_segments g2),
                     car_to_segment := (car_to_segment g2)(vehicle_id fcd \<mapsto> sid)\<rparr>
             else g2
         | None \<Rightarrow> g2\<lparr>car_to_segment := (car_to_segment g2)(vehicle_id fcd \<mapsto> sid)\<rparr>)"

subsection \<open>Load ahead of a vehicle: \<open>load_ahead\<close>\<close>

text \<open>
  The loop over the stored records of the segment. \<open>vehicles_ahead\<close> is the dict built by
  the loop, in insertion order. \<open>DEFAULT_VEHICLE_CLASSES["car"]\<close> is evaluated as the
  default argument of \<open>get\<close> whenever a new vehicle is entered, and raises \<open>KeyError\<close>
  when the table has no such entry.
\<close>

fun load_ahead_loop ::
  "vehicle_classes \<Rightarrow> time \<Rightarrow> time \<Rightarrow> int \<Rightarrow> real \<Rightarrow> FCDRecord list \<Rightarrow>
   (int \<times> VehicleParams) list \<Rightarrow> py_error + (int \<times> VehicleParams) list" where
  "load_ahead_loop classes dt tolerance vid offset [] vehicles_ahead = Inr vehicles_ahead"
| "load_ahead_loop classes dt tolerance vid offset (fcd # fcds) vehicles_ahead =
     (if dt - tolerance \<le> datetime fcd \<and> datetime fcd \<le> dt + tolerance then
        if vehicle_id fcd \<noteq> vid \<and> start_offset fcd > offset then
          if map_of vehicles_ahead (vehicle_id fcd) = None then
            (case classes ''car'' of
               None \<Rightarrow> Inl KeyError
             | Some car \<Rightarrow>
                 let vehicle_params =
                       (case classes (vehicle_type fcd) of None \<Rightarrow> car | Some p \<Rightarrow> p)
                 in load_ahead_loop classes dt tolerance vid offset fcds
                      (AList.update (vehicle_id fcd) vehicle_params vehicles_ahead))
          else load_ahead_loop classes dt tolerance vid offset fcds vehicles_ahead
        else load_ahead_loop classes dt tolerance vid offset fcds vehicles_ahead
      else load_ahead_loop classes dt tolerance vid offset fcds vehicles_ahead)"

text \<open>
  \<open>load_ahead(datetime, segment_id, tolerance=None, vehicle_id=-1, vehicle_offset_m=0)\<close>.
  The optional tolerance is \<open>None\<close> or a time span; the callers pass the other defaults.
\<close>

definition load_ahead ::
  "vehicle_classes \<Rightarrow> GlobalView \<Rightarrow> time \<Rightarrow> SegmentId \<Rightarrow> time option \<Rightarrow> int \<Rightarrow> real \<Rightarrow>
   py_error + (real \<times> real \<times> (int \<times> VehicleParams) list)" where
  "load_ahead classes g dt sid tolerance vid offset =
     (let tol = (case tolerance of None \<Rightarrow> 0 | Some t \<Rightarrow> t)
      in case load_ahead_loop classes dt tol vid offset (observations g sid) [] of
           Inl e \<Rightarrow> Inl e
         | Inr vehicles_ahead \<Rightarrow>
             Inr (sum_list (map (\<lambda>(v, p). pcu p) vehicles_ahead),
                  sum_list (map (\<lambda>(v, p). length_m p + standstill_gap_m p) vehicles_ahead),
                  vehicles_ahead))"

subsection \<open>Level of service\<close>

definition mile :: real where
  "mile = 1609.344"

definition ranges :: "((real \<times> real) \<times> (real \<times> real)) list" where
  "ranges =
     [((0, 12), (0.0, 0.2)),
      ((12, 20), (0.2, 0.4)),
      ((20, 30), (0.4, 0.6)),
      ((30, 42), (0.6, 0.8)),
      ((42, 67), (0.8, 1.0))]"

definition ending_length :: real where
  "ending_length = 200"

text \<open>
  Lines 80 to 87: the density in vehicles per mile. The second branch divides by
  \<open>rest_segment_length * segment.lanes\<close>, which raises \<open>ZeroDivisionError\<close> when zero.
\<close>

definition n_vehicles_per_mile :: "real \<Rightarrow> Segment \<Rightarrow> real \<Rightarrow> py_error + real" where
  "n_vehicles_per_mile sum_pcu seg offset =
     (let rest_segment_length = seg_length seg - offset
      in if rest_segment_length < ending_length
         then Inr (sum_pcu * mile / ending_length)
         else if rest_segment_length * of_int (lanes seg) = 0
              then Inl ZeroDivisionError
              else Inr (sum_pcu * mile / (rest_segment_length * of_int (lanes seg))))"

text \<open>
  Lines 89 to 95: the loop over the bands, leaving at the first band whose upper end
  lies above the density; \<open>los\<close> stays infinite when no band matches.
\<close>

fun los_loop :: "((real \<times> real) \<times> (real \<times> real)) list \<Rightarrow> real \<Rightarrow> pyfloat" where
  "los_loop [] n = PosInf"
| "los_loop (((low, high), (m, n')) # rs) n =
     (if n < high then Fin (m + ((n - low) * 0.2 / (high - low))) else los_loop rs n)"

text \<open>Line 98: the reversal, which the infinite value passes through.\<close>

definition reverse_los :: "pyfloat \<Rightarrow> pyfloat" where
  "reverse_los los = (case los of PosInf \<Rightarrow> PosInf | Fin x \<Rightarrow> Fin (1.0 - x))"

text \<open>
  Lines 80 to 98 as one function of the summed load: the density, the lookup and the
  reversal. The function below reaches it on every path that does not return from the
  jam branch.
\<close>

definition density_model :: "real \<Rightarrow> Segment \<Rightarrow> real \<Rightarrow> py_error + pyfloat" where
  "density_model sum_pcu seg offset =
     (case n_vehicles_per_mile sum_pcu seg offset of
        Inl e \<Rightarrow> Inl e
      | Inr n \<Rightarrow> Inr (reverse_los (los_loop ranges n)))"

definition level_of_service_in_front_of_vehicle ::
  "vehicle_classes \<Rightarrow> GlobalView \<Rightarrow> time \<Rightarrow> Segment \<Rightarrow> int \<Rightarrow> real \<Rightarrow> time option \<Rightarrow> bool \<Rightarrow>
   py_error + pyfloat" where
  "level_of_service_in_front_of_vehicle classes g dt seg vid offset tolerance limit_vehicle_count =
     (case load_ahead classes g dt (seg_id seg) tolerance vid offset of
        Inl e \<Rightarrow> Inl e
      | Inr (sum_pcu, sum_occupied_length, vehicles_ahead) \<Rightarrow>
          let available_length = seg_length seg - offset
          in if limit_vehicle_count \<and> offset = 0.0 \<and> seg_length seg \<ge> 10.0
             then if sum_occupied_length > available_length
                  then Inr PosInf
                  else density_model sum_pcu seg offset
             else density_model sum_pcu seg offset)"

definition level_of_service_in_time_at_segment ::
  "vehicle_classes \<Rightarrow> GlobalView \<Rightarrow> time \<Rightarrow> Segment \<Rightarrow> py_error + pyfloat" where
  "level_of_service_in_time_at_segment classes g dt seg =
     level_of_service_in_front_of_vehicle classes g dt seg (- 1) 0 None False"

subsection \<open>Aggregation: \<open>get_segment_speed\<close> and \<open>take_segment_speeds\<close>\<close>

text \<open>
  The loop \<open>speeds[fcd.vehicle_id] = fcd.speed\<close> over the sorted copy.
\<close>

fun speeds_loop :: "FCDRecord list \<Rightarrow> (int \<times> real) list \<Rightarrow> (int \<times> real) list" where
  "speeds_loop [] speeds = speeds"
| "speeds_loop (fcd # fcds) speeds =
     speeds_loop fcds (AList.update (vehicle_id fcd) (speed fcd) speeds)"

text \<open>
  Lines 117 to 123, on the copy \<open>fs\<close> of the stored list. \<open>list.sort(key=...)\<close> is stable;
  so is \<open>sort_key\<close>, and the stable sorting of a list by a key is unique.
\<close>

definition speed_of_records :: "FCDRecord list \<Rightarrow> real option" where
  "speed_of_records fs =
     (let by_segment = sort_key datetime fs;
          speeds = map snd (speeds_loop by_segment [])
      in if length speeds = 0 then None
         else Some (sum_list speeds / of_nat (length speeds)))"

text \<open>
  Line 116 subscripts the \<open>defaultdict\<close>, which may insert the key, so the state is
  returned with the result.
\<close>

definition get_segment_speed :: "GlobalView \<Rightarrow> SegmentId \<Rightarrow> real option \<times> GlobalView" where
  "get_segment_speed g sid =
     (let (fs, d) = getitem_default (fcd_by_segment g) sid
      in (speed_of_records fs, g\<lparr>fcd_by_segment := d\<rparr>))"

text \<open>
  The loop of \<open>take_segment_speeds\<close> over the modified segments, filling the dict
  \<open>speeds\<close>; the dict is only written by key and returned, so it is a map.
\<close>

fun take_loop ::
  "SegmentId list \<Rightarrow> (SegmentId \<rightharpoonup> real option) \<Rightarrow> GlobalView \<Rightarrow>
   (SegmentId \<rightharpoonup> real option) \<times> GlobalView" where
  "take_loop [] speeds g = (speeds, g)"
| "take_loop (sid # sids) speeds g =
     (let (v, g') = get_segment_speed g sid
      in take_loop sids (speeds(sid \<mapsto> v)) g')"

definition take_segment_speeds :: "GlobalView \<Rightarrow> (SegmentId \<rightharpoonup> real option) \<times> GlobalView" where
  "take_segment_speeds g =
     (let (speeds, g') = take_loop (modified_segments g) Map.empty g
      in (speeds, g'\<lparr>modified_segments := []\<rparr>))"

subsection \<open>Retention: \<open>drop_old\<close>\<close>

text \<open>
  The loop runs over the items of the dict. An iteration assigns to the key it is at
  only, so the items still to come are those of the dict at the start. The subscript of
  line 127 reads a key the dict has, so it inserts nothing.
\<close>

fun drop_old_loop :: "time \<Rightarrow> (SegmentId \<times> FCDRecord list) list \<Rightarrow> GlobalView \<Rightarrow> GlobalView" where
  "drop_old_loop dt_threshold [] g = g"
| "drop_old_loop dt_threshold ((segment_id, old_fcds) # items) g =
     (let new_fcds = filter (\<lambda>fcd. datetime fcd \<ge> dt_threshold) (observations g segment_id)
      in drop_old_loop dt_threshold items
           (if length new_fcds \<noteq> length old_fcds
            then g\<lparr>fcd_by_segment := AList.update segment_id new_fcds (fcd_by_segment g),
                   modified_segments := List.insert segment_id (modified_segments g)\<rparr>
            else g))"

definition drop_old :: "GlobalView \<Rightarrow> time \<Rightarrow> GlobalView" where
  "drop_old g dt_threshold = drop_old_loop dt_threshold (fcd_by_segment g) g"


subsection \<open>Conditions named in the statements\<close>

text \<open>
  The two tests of the loop of \<open>load_ahead\<close> (lines 44 and 45) on one record: it lies in
  the time window, its vehicle is not the reference vehicle and its offset is strictly
  beyond the reference offset.
\<close>

definition qualifies :: "time \<Rightarrow> time \<Rightarrow> int \<Rightarrow> real \<Rightarrow> FCDRecord \<Rightarrow> bool" where
  "qualifies dt tol vid offset fcd \<longleftrightarrow>
     dt - tol \<le> datetime fcd \<and> datetime fcd \<le> dt + tol
     \<and> vehicle_id fcd \<noteq> vid \<and> start_offset fcd > offset"

text \<open>
  Line 41: the tolerance, zero when none is given.
\<close>

definition tol_of :: "time option \<Rightarrow> time" where
  "tol_of tolerance = (case tolerance of None \<Rightarrow> 0 | Some t \<Rightarrow> t)"

text \<open>
  Line 127: the records a call of \<open>drop_old\<close> keeps of one list.
\<close>

definition kept :: "time \<Rightarrow> FCDRecord list \<Rightarrow> FCDRecord list" where
  "kept t fs = filter (\<lambda>fcd. datetime fcd \<ge> t) fs"


subsection \<open>The aggregate and the dirty set as the specification words them\<close>

text \<open>
  The specification of the aggregate speed: every vehicle seen on the segment counts
  once, with the speed of its last record in the stably sorted sequence, and the result
  is the arithmetic mean; no records, no data. These definitions follow the words of
  the specification, and are compared with \<open>speed_of_records\<close> below.
\<close>

definition spec_latest_speed :: "FCDRecord list \<Rightarrow> int \<Rightarrow> real" where
  "spec_latest_speed fs v =
     speed (last (filter (\<lambda>fcd. vehicle_id fcd = v) (sort_key datetime fs)))"

definition spec_segment_speed :: "FCDRecord list \<Rightarrow> real option" where
  "spec_segment_speed fs =
     (if fs = [] then None
      else let vehicles = remdups (map vehicle_id fs)
           in Some (sum_list (map (spec_latest_speed fs) vehicles) / of_nat (length vehicles)))"

text \<open>
  The segments a sequence of records touches, in the words of the specification: the
  segment of each record, and the segment its vehicle was on before when that differs.
  \<open>current\<close> is the segment of every vehicle before the sequence.
\<close>

fun touched_by_adds :: "(int \<rightharpoonup> SegmentId) \<Rightarrow> FCDRecord list \<Rightarrow> SegmentId set" where
  "touched_by_adds current [] = {}"
| "touched_by_adds current (r # rs) =
     {seg_id (segment r)}
     \<union> (case current (vehicle_id r) of
          None \<Rightarrow> {}
        | Some previous \<Rightarrow> if previous \<noteq> seg_id (segment r) then {previous} else {})
     \<union> touched_by_adds (current(vehicle_id r \<mapsto> seg_id (segment r))) rs"


subsection \<open>Example states\<close>

text \<open>
  A table with the class of the end-to-end scenario of the specification, two segments
  and a few records; the states below are built from them by the operations.
\<close>

definition car_params :: VehicleParams where
  "car_params = \<lparr>name = ''car'', pcu = 1, length_m = 5, standstill_gap_m = 2\<rparr>"

definition classes_example :: vehicle_classes where
  "classes_example = [''car'' \<mapsto> car_params]"

definition seg_short :: Segment where
  "seg_short = \<lparr>seg_id = ''s1'', seg_length = 10, lanes = 1\<rparr>"

definition seg_long :: Segment where
  "seg_long = \<lparr>seg_id = ''s2'', seg_length = 500, lanes = 2\<rparr>"

definition fcd_a :: FCDRecord where
  "fcd_a = \<lparr>datetime = 100, vehicle_id = 1, vehicle_type = ''car'', segment = seg_short,
            start_offset = 2, speed = 30\<rparr>"

definition fcd_b :: FCDRecord where
  "fcd_b = \<lparr>datetime = 100, vehicle_id = 2, vehicle_type = ''bus'', segment = seg_short,
            start_offset = 6, speed = 20\<rparr>"

definition fcd_c :: FCDRecord where
  "fcd_c = \<lparr>datetime = 200, vehicle_id = 1, vehicle_type = ''car'', segment = seg_short,
            start_offset = 8, speed = 10\<rparr>"

definition fcd_m :: FCDRecord where
  "fcd_m = \<lparr>datetime = 300, vehicle_id = 1, vehicle_type = ''car'', segment = seg_long,
            start_offset = 0, speed = 40\<rparr>"

definition fcd_z :: FCDRecord where
  "fcd_z = \<lparr>datetime = 100, vehicle_id = 3, vehicle_type = ''car'', segment = seg_long,
            start_offset = 0, speed = 50\<rparr>"

definition fcd_e1 :: FCDRecord where
  "fcd_e1 = \<lparr>datetime = 1, vehicle_id = 1, vehicle_type = ''car'', segment = seg_long,
             start_offset = 5, speed = 10\<rparr>"

definition fcd_e2 :: FCDRecord where
  "fcd_e2 = \<lparr>datetime = 2, vehicle_id = 1, vehicle_type = ''car'', segment = seg_long,
             start_offset = 9, speed = 20\<rparr>"

definition view_jam :: GlobalView where
  "view_jam = add (add init fcd_a) fcd_b"

definition view_entering :: GlobalView where
  "view_entering = add init fcd_z"

definition view_example :: GlobalView where
  "view_example = add (add init fcd_e1) fcd_e2"

definition view_seen :: GlobalView where
  "view_seen = snd (take_segment_speeds (add view_jam fcd_c))"

definition view_moved :: GlobalView where
  "view_moved = add view_seen fcd_m"

definition view_drained :: GlobalView where
  "view_drained = snd (take_segment_speeds view_moved)"


subsection \<open>Double precision\<close>

text \<open>
  The functions above compute over the reals. The level of service is computed by the
  code in double precision (IEEE 754 binary64), and the range of its result depends on
  the rounding; the definitions of this subsection repeat lines 36 to 98 with every
  arithmetic operation followed by the rounding of its exact result.

  \<open>rne\<close> rounds a real to the nearest integer, a tie to the even one. \<open>rnd\<close> rounds a
  real to the nearest double, a tie to the double with an even significand: the result
  is a multiple of \<open>2 ^ ulp_exp x\<close>, the spacing of the doubles around \<open>x\<close>, which is
  \<open>2 ^ (e - 52)\<close> for \<open>2 ^ e \<le> \<bar>x\<bar> < 2 ^ (e + 1)\<close> and \<open>2 ^ - 1074\<close> in the subnormal
  range. Overflow to infinity and NaN are not modelled.
\<close>

definition rne :: "real \<Rightarrow> int" where
  "rne y =
     (let f = \<lfloor>y\<rfloor>; d = y - of_int f
      in if d < 1 / 2 then f
         else if 1 / 2 < d then f + 1
         else if even f then f else f + 1)"

definition exponent :: "real \<Rightarrow> int" where
  "exponent x = \<lfloor>log 2 \<bar>x\<bar>\<rfloor>"

definition ulp_exp :: "real \<Rightarrow> int" where
  "ulp_exp x = max (exponent x - 52) (- 1074)"

definition rnd :: "real \<Rightarrow> real" where
  "rnd x =
     (if x = 0 then 0
      else of_int (rne (x / power_int 2 (ulp_exp x))) * power_int 2 (ulp_exp x))"

text \<open>
  \<open>sum\<close> over floats, adding from the left to the start value 0, each addition rounded.
  (CPython from version 3.12 on carries a correction term through such a sum; where every
  partial sum is a double, as in the examples below, both ways of summing give the same.)
\<close>

definition fsum :: "real list \<Rightarrow> real" where
  "fsum xs = foldl (\<lambda>acc x. rnd (acc + x)) 0 xs"

text \<open>
  \<open>load_ahead\<close> with the two sums of lines 49 and 50 in double precision; the loop
  compares only and is the one above.
\<close>

definition load_ahead_double ::
  "vehicle_classes \<Rightarrow> GlobalView \<Rightarrow> time \<Rightarrow> SegmentId \<Rightarrow> time option \<Rightarrow> int \<Rightarrow> real \<Rightarrow>
   py_error + (real \<times> real \<times> (int \<times> VehicleParams) list)" where
  "load_ahead_double classes g dt sid tolerance vid offset =
     (let tol = (case tolerance of None \<Rightarrow> 0 | Some t \<Rightarrow> t)
      in case load_ahead_loop classes dt tol vid offset (observations g sid) [] of
           Inl e \<Rightarrow> Inl e
         | Inr vehicles_ahead \<Rightarrow>
             Inr (fsum (map (\<lambda>(v, p). pcu p) vehicles_ahead),
                  fsum (map (\<lambda>(v, p). rnd (length_m p + standstill_gap_m p)) vehicles_ahead),
                  vehicles_ahead))"

text \<open>
  The constants: the literals \<open>1609.344\<close>, \<open>0.2\<close>, ... of the source denote the nearest
  doubles; the band limits are integers.
\<close>

definition mile_double :: real where
  "mile_double = rnd 1609.344"

definition ranges_double :: "((real \<times> real) \<times> (real \<times> real)) list" where
  "ranges_double =
     [((0, 12), (rnd 0.0, rnd 0.2)),
      ((12, 20), (rnd 0.2, rnd 0.4)),
      ((20, 30), (rnd 0.4, rnd 0.6)),
      ((30, 42), (rnd 0.6, rnd 0.8)),
      ((42, 67), (rnd 0.8, rnd 1.0))]"

text \<open>
  Lines 80 to 87. The lane count is an integer and is converted to a double before the
  multiplication.
\<close>

definition n_vehicles_per_mile_double :: "real \<Rightarrow> Segment \<Rightarrow> real \<Rightarrow> py_error + real" where
  "n_vehicles_per_mile_double sum_pcu seg offset =
     (let rest_segment_length = rnd (seg_length seg - offset)
      in if rest_segment_length < ending_length
         then Inr (rnd (rnd (sum_pcu * mile_double) / ending_length))
         else if rnd (rest_segment_length * rnd (of_int (lanes seg))) = 0
              then Inl ZeroDivisionError
              else Inr (rnd (rnd (sum_pcu * mile_double)
                             / rnd (rest_segment_length * rnd (of_int (lanes seg))))))"

text \<open>
  Lines 89 to 95: \<open>m + ((n - low) * 0.2 / d)\<close> with \<open>d = high - low\<close> an exact integer.
\<close>

fun los_loop_double :: "((real \<times> real) \<times> (real \<times> real)) list \<Rightarrow> real \<Rightarrow> pyfloat" where
  "los_loop_double [] n = PosInf"
| "los_loop_double (((low, high), (m, n')) # rs) n =
     (if n < high
      then Fin (rnd (m + rnd (rnd (rnd (n - low) * rnd 0.2) / (high - low))))
      else los_loop_double rs n)"

definition reverse_los_double :: "pyfloat \<Rightarrow> pyfloat" where
  "reverse_los_double los = (case los of PosInf \<Rightarrow> PosInf | Fin x \<Rightarrow> Fin (rnd (1.0 - x)))"

definition density_model_double :: "real \<Rightarrow> Segment \<Rightarrow> real \<Rightarrow> py_error + pyfloat" where
  "density_model_double sum_pcu seg offset =
     (case n_vehicles_per_mile_double sum_pcu seg offset of
        Inl e \<Rightarrow> Inl e
      | Inr n \<Rightarrow> Inr (reverse_los_double (los_loop_double ranges_double n)))"

definition level_of_service_in_front_of_vehicle_double ::
  "vehicle_classes \<Rightarrow> GlobalView \<Rightarrow> time \<Rightarrow> Segment \<Rightarrow> int \<Rightarrow> real \<Rightarrow> time option \<Rightarrow> bool \<Rightarrow>
   py_error + pyfloat" where
  "level_of_service_in_front_of_vehicle_double classes g dt seg vid offset tolerance limit_vehicle_count =
     (case load_ahead_double classes g dt (seg_id seg) tolerance vid offset of
        Inl e \<Rightarrow> Inl e
      | Inr (sum_pcu, sum_occupied_length, vehicles_ahead) \<Rightarrow>
          let available_length = rnd (seg_length seg - offset)
          in if limit_vehicle_count \<and> offset = 0.0 \<and> seg_length seg \<ge> 10.0
             then if sum_occupied_length > available_length
                  then Inr PosInf
                  else density_model_double sum_pcu seg offset
             else density_model_double sum_pcu seg offset)"

text \<open>
  A segment whose length is the double 240.20059701492542, and ten cars on it.
\<close>

definition seg_edge :: Segment where
  "seg_edge = \<lparr>seg_id = ''s3'', seg_length = 8451307181332725 / 2 ^ 45, lanes = 1\<rparr>"

definition car_on_edge :: "int \<Rightarrow> FCDRecord" where
  "car_on_edge i = \<lparr>datetime = 100, vehicle_id = i, vehicle_type = ''car'', segment = seg_edge,
                    start_offset = 20 * of_int i, speed = 30\<rparr>"

definition view_edge :: GlobalView where
  "view_edge = foldl add init
     [car_on_edge 1, car_on_edge 2, car_on_edge 3, car_on_edge 4, car_on_edge 5,
      car_on_edge 6, car_on_edge 7, car_on_edge 8, car_on_edge 9, car_on_edge 10]"


section \<open>Properties\<close>


subsection \<open>Level of service: the bands\<close>

lemma los_loop_ranges:
  "los_loop ranges n =
     (if n < 12 then Fin (0 + (n - 0) * 0.2 / 12)
      else if n < 20 then Fin (0.2 + (n - 12) * 0.2 / 8)
      else if n < 30 then Fin (0.4 + (n - 20) * 0.2 / 10)
      else if n < 42 then Fin (0.6 + (n - 30) * 0.2 / 12)
      else if n < 67 then Fin (0.8 + (n - 42) * 0.2 / 25)
      else PosInf)"
  by (simp add: ranges_def)

lemma los_loop_bounds:
  assumes "0 \<le> n" and "los_loop ranges n = Fin x"
  shows "0 \<le> x \<and> x < 1"
proof -
  consider "n < 12" | "12 \<le> n" "n < 20" | "20 \<le> n" "n < 30" | "30 \<le> n" "n < 42"
    | "42 \<le> n" "n < 67" | "67 \<le> n"
    by linarith
  then show ?thesis
  proof cases
    case 1
    with assms show ?thesis by (simp add: los_loop_ranges)
  next
    case 2
    with assms have "x = 0.2 + (n - 12) * 0.2 / 8" by (simp add: los_loop_ranges)
    with 2 show ?thesis by (simp add: field_simps)
  next
    case 3
    with assms have "x = 0.4 + (n - 20) * 0.2 / 10" by (simp add: los_loop_ranges)
    with 3 show ?thesis by (simp add: field_simps)
  next
    case 4
    with assms have "x = 0.6 + (n - 30) * 0.2 / 12" by (simp add: los_loop_ranges)
    with 4 show ?thesis by (simp add: field_simps)
  next
    case 5
    with assms have "x = 0.8 + (n - 42) * 0.2 / 25" by (simp add: los_loop_ranges)
    with 5 show ?thesis by (simp add: field_simps)
  next
    case 6
    with assms show ?thesis by (simp add: los_loop_ranges)
  qed
qed

text \<open>
  Claim C5. The lookup uses half-open density bands. A density exactly at a band
  boundary falls into the higher band and gets that band's low end: 12 gives the raw
  value 0.2 and the reported score 0.8, and 20, 30 and 42 give the raw values 0.4, 0.6
  and 0.8. Every density at or above 67 matches no band and yields the infinite value,
  every density below 67 a finite one; the reversal maps a finite raw value \<open>x\<close> to
  \<open>1.0 - x\<close> and lets the infinite value through unchanged. The last conjunct says the
  same of lines 80 to 98 as a whole, for the density \<open>n\<close> they compute.
\<close>

theorem band_lookup_half_open:
  "los_loop ranges 12 = Fin 0.2 \<and> reverse_los (los_loop ranges 12) = Fin 0.8
   \<and> los_loop ranges 20 = Fin 0.4 \<and> los_loop ranges 30 = Fin 0.6 \<and> los_loop ranges 42 = Fin 0.8
   \<and> (67 \<le> n \<longrightarrow> los_loop ranges n = PosInf \<and> reverse_los (los_loop ranges n) = PosInf)
   \<and> (n < 67 \<longrightarrow> los_loop ranges n \<noteq> PosInf)
   \<and> reverse_los (Fin x) = Fin (1.0 - x) \<and> reverse_los PosInf = PosInf
   \<and> (n_vehicles_per_mile p seg offset = Inr n \<longrightarrow>
         density_model p seg offset =
           (if n = 12 then Inr (Fin 0.8) else if 67 \<le> n then Inr PosInf
            else Inr (reverse_los (los_loop ranges n))))"
  by (simp add: los_loop_ranges reverse_los_def density_model_def)

text \<open>
  The density of ten passenger car units on the short segment is 80.4672 vehicles per
  mile, above 67: the score is infinite. The density 5 lies in the first band.
\<close>

theorem band_lookup_half_open_witness:
  "(67::real) \<le> 80.4672 \<and> los_loop ranges 80.4672 = PosInf
   \<and> n_vehicles_per_mile 10 seg_short 0 = Inr 80.4672
   \<and> density_model 10 seg_short 0 = Inr PosInf
   \<and> (5::real) < 67 \<and> los_loop ranges 5 \<noteq> PosInf"
proof -
  have d: "n_vehicles_per_mile 10 seg_short 0 = Inr 80.4672"
    by (simp add: n_vehicles_per_mile_def seg_short_def ending_length_def mile_def)
  have "(67::real) \<le> 80.4672" by simp
  with d band_lookup_half_open [of "80.4672" 0 10 seg_short 0] band_lookup_half_open [of 5 0 10 seg_short 0]
  show ?thesis by simp
qed

text \<open>
  Claim C6. With \<open>rest_length = segment.length - offset\<close>: below 200 metres the density
  is \<open>total_pcu * 1609.344 / 200\<close>, with no division by the lane count; otherwise it is
  \<open>total_pcu * 1609.344 / (rest_length * lane_count)\<close>, for a lane count other than zero
  (with no lanes the division raises \<open>ZeroDivisionError\<close>). The last conjunct: whenever
  the jam branch does not return, the function looks up exactly this density.
\<close>

theorem density_normalisation:
  "(seg_length seg - offset < 200 \<longrightarrow>
      n_vehicles_per_mile total_pcu seg offset = Inr (total_pcu * 1609.344 / 200))
   \<and> (\<not> seg_length seg - offset < 200 \<and> lanes seg \<noteq> 0 \<longrightarrow>
      n_vehicles_per_mile total_pcu seg offset
        = Inr (total_pcu * 1609.344 / ((seg_length seg - offset) * of_int (lanes seg))))
   \<and> (\<not> seg_length seg - offset < 200 \<and> lanes seg = 0 \<longrightarrow>
      n_vehicles_per_mile total_pcu seg offset = Inl ZeroDivisionError)
   \<and> (load_ahead classes g dt (seg_id seg) tolerance vid offset = Inr (total_pcu, occ, va)
        \<and> \<not> (limit \<and> offset = 0 \<and> seg_length seg \<ge> 10 \<and> occ > seg_length seg - offset) \<longrightarrow>
      level_of_service_in_front_of_vehicle classes g dt seg vid offset tolerance limit
        = (case n_vehicles_per_mile total_pcu seg offset of
             Inl e \<Rightarrow> Inl e | Inr n \<Rightarrow> Inr (reverse_los (los_loop ranges n))))"
  by (auto simp: n_vehicles_per_mile_def ending_length_def mile_def Let_def
        level_of_service_in_front_of_vehicle_def density_model_def)


subsection \<open>The loop of load_ahead\<close>

lemma update_fresh_key: "map_of al k = None \<Longrightarrow> AList.update k v al = al @ [(k, v)]"
  by (induction al) (auto split: if_splits)

lemma load_ahead_loop_step:
  "load_ahead_loop classes dt tol vid offset (fcd # fcds) va =
     (if qualifies dt tol vid offset fcd \<and> map_of va (vehicle_id fcd) = None then
        (case classes ''car'' of
           None \<Rightarrow> Inl KeyError
         | Some car \<Rightarrow>
             load_ahead_loop classes dt tol vid offset fcds
               (va @ [(vehicle_id fcd, case classes (vehicle_type fcd) of None \<Rightarrow> car | Some p \<Rightarrow> p)]))
      else load_ahead_loop classes dt tol vid offset fcds va)"
  by (simp add: qualifies_def update_fresh_key split: option.splits)

lemma load_ahead_loop_params:
  "load_ahead_loop classes dt tol vid offset fcds va = Inr va' \<Longrightarrow>
   snd ` set va \<subseteq> ran classes \<Longrightarrow> snd ` set va' \<subseteq> ran classes"
proof (induction fcds arbitrary: va)
  case Nil
  then show ?case by simp
next
  case (Cons fcd fcds)
  show ?case
  proof (cases "qualifies dt tol vid offset fcd \<and> map_of va (vehicle_id fcd) = None")
    case False
    with Cons.prems(1) have "load_ahead_loop classes dt tol vid offset fcds va = Inr va'"
      by (simp add: load_ahead_loop_step del: load_ahead_loop.simps)
    with Cons.IH Cons.prems(2) show ?thesis by blast
  next
    case True
    with Cons.prems(1) obtain car where car: "classes ''car'' = Some car"
      and run: "load_ahead_loop classes dt tol vid offset fcds
         (va @ [(vehicle_id fcd, case classes (vehicle_type fcd) of None \<Rightarrow> car | Some p \<Rightarrow> p)]) = Inr va'"
      by (cases "classes ''car''") (simp_all add: load_ahead_loop_step del: load_ahead_loop.simps)
    have "(case classes (vehicle_type fcd) of None \<Rightarrow> car | Some p \<Rightarrow> p) \<in> ran classes"
      using car by (auto simp: ran_def split: option.splits)
    with Cons.prems(2)
    have "snd ` set (va @ [(vehicle_id fcd, case classes (vehicle_type fcd) of None \<Rightarrow> car | Some p \<Rightarrow> p)])
            \<subseteq> ran classes"
      by auto
    with Cons.IH run show ?thesis by blast
  qed
qed



lemma load_ahead_loop_no_error:
  "classes ''car'' \<noteq> None \<Longrightarrow> \<exists>va'. load_ahead_loop classes dt tol vid offset fcds va = Inr va'"
proof (induction fcds arbitrary: va)
  case Nil
  then show ?case by simp
next
  case (Cons fcd fcds)
  then show ?case
    by (cases "classes ''car''") (simp_all add: load_ahead_loop_step del: load_ahead_loop.simps)
qed


subsection \<open>Level of service: load, jam and range\<close>

lemma load_ahead_InrD:
  assumes "load_ahead classes g dt sid tolerance vid offset = Inr (total_pcu, occ, va)"
  shows "load_ahead_loop classes dt (tol_of tolerance) vid offset (observations g sid) [] = Inr va"
    and "total_pcu = sum_list (map (\<lambda>(v, p). pcu p) va)"
    and "occ = sum_list (map (\<lambda>(v, p). length_m p + standstill_gap_m p) va)"
  using assms by (auto simp: load_ahead_def tol_of_def Let_def split: sum.splits)

lemma load_ahead_loop_error:
  "load_ahead_loop classes dt tol vid offset fcds va = Inl e \<Longrightarrow> e = KeyError"
proof (induction fcds arbitrary: va)
  case Nil
  then show ?case by simp
next
  case (Cons fcd fcds)
  then show ?case
    by (cases "classes ''car''")
       (auto simp add: load_ahead_loop_step simp del: load_ahead_loop.simps split: if_splits)
qed

lemma load_ahead_error:
  "load_ahead classes g dt sid tolerance vid offset = Inl e \<Longrightarrow> e = KeyError"
  by (auto simp: load_ahead_def Let_def split: sum.splits dest: load_ahead_loop_error)

lemma sum_pcu_nonneg:
  assumes "snd ` set va \<subseteq> ran classes" and "\<forall>p \<in> ran classes. 0 \<le> pcu p"
  shows "0 \<le> sum_list (map (\<lambda>(v, p). pcu p) va)"
proof (rule sum_list_nonneg)
  fix x assume "x \<in> set (map (\<lambda>(v, p). pcu p) va)"
  then obtain v p where "(v, p) \<in> set va" "x = pcu p" by auto
  with assms show "0 \<le> x" by force
qed

lemma load_ahead_pcu_nonneg:
  assumes "load_ahead classes g dt sid tolerance vid offset = Inr (total_pcu, occ, va)"
    and "\<forall>p \<in> ran classes. 0 \<le> pcu p"
  shows "0 \<le> total_pcu"
proof -
  have "snd ` set va \<subseteq> ran classes"
    using load_ahead_loop_params [OF load_ahead_InrD(1) [OF assms(1)]] by simp
  with assms(2) load_ahead_InrD(2) [OF assms(1)] show ?thesis
    by (simp add: sum_pcu_nonneg)
qed

lemma density_nonneg:
  assumes "0 \<le> total_pcu" and "1 \<le> lanes seg"
    and "n_vehicles_per_mile total_pcu seg offset = Inr n"
  shows "0 \<le> n"
proof (cases "seg_length seg - offset < 200")
  case True
  with assms(3) have "n = total_pcu * mile / 200"
    by (simp add: n_vehicles_per_mile_def ending_length_def)
  with assms(1) show ?thesis by (simp add: mile_def)
next
  case False
  with assms(3) have n: "n = total_pcu * mile / ((seg_length seg - offset) * of_int (lanes seg))"
    by (simp add: n_vehicles_per_mile_def ending_length_def split: if_splits)
  from False assms(2) have "0 < (seg_length seg - offset) * of_int (lanes seg)"
    by simp
  with assms(1) n show ?thesis by (simp add: mile_def)
qed

lemma density_no_error:
  assumes "1 \<le> lanes seg"
  shows "n_vehicles_per_mile total_pcu seg offset \<noteq> Inl e"
  using assms by (simp add: n_vehicles_per_mile_def ending_length_def Let_def)

lemma density_model_range:
  assumes "0 \<le> total_pcu" and "1 \<le> lanes seg"
    and "density_model total_pcu seg offset = Inr (Fin x)"
  shows "0 < x \<and> x \<le> 1"
proof -
  from assms(3) obtain n where n: "n_vehicles_per_mile total_pcu seg offset = Inr n"
    and r: "reverse_los (los_loop ranges n) = Fin x"
    by (auto simp: density_model_def split: sum.splits)
  from r obtain y where y: "los_loop ranges n = Fin y" and x: "x = 1 - y"
    by (auto simp: reverse_los_def split: pyfloat.splits)
  from density_nonneg [OF assms(1,2) n] y have "0 \<le> y \<and> y < 1"
    by (rule los_loop_bounds)
  with x show ?thesis by simp
qed

lemma los_cases:
  assumes "load_ahead classes g dt (seg_id seg) tolerance vid offset = Inr (total_pcu, occ, va)"
  shows "level_of_service_in_front_of_vehicle classes g dt seg vid offset tolerance limit =
     (if limit \<and> offset = 0 \<and> seg_length seg \<ge> 10 \<and> occ > seg_length seg - offset
      then Inr PosInf else density_model total_pcu seg offset)"
  using assms by (simp add: level_of_service_in_front_of_vehicle_def)

text \<open>
  The range of the finite scores over exact arithmetic. When every class of the table
  has a non-negative PCU value and the segment has at least one lane, a finite value
  returned is strictly greater than 0 and at most 1; the function never raises
  \<open>ZeroDivisionError\<close>, and it returns a value whenever the table has the class "car".
  The strict lower bound rests on the exactness of the reals: the raw value of the last
  band comes as close to 1 as the density comes to 67, and rounding closes that gap; the
  score in double precision is treated in the last section.
\<close>

theorem finite_score_range:
  assumes "\<forall>p \<in> ran classes. 0 \<le> pcu p" and "1 \<le> lanes seg"
  shows "(level_of_service_in_front_of_vehicle classes g dt seg vid offset tolerance limit = Inr (Fin x)
            \<longrightarrow> 0 < x \<and> x \<le> 1)
         \<and> level_of_service_in_front_of_vehicle classes g dt seg vid offset tolerance limit
             \<noteq> Inl ZeroDivisionError
         \<and> (classes ''car'' \<noteq> None \<longrightarrow>
             (\<exists>r. level_of_service_in_front_of_vehicle classes g dt seg vid offset tolerance limit = Inr r))"
proof (cases "load_ahead classes g dt (seg_id seg) tolerance vid offset")
  case (Inl e)
  then have los: "level_of_service_in_front_of_vehicle classes g dt seg vid offset tolerance limit = Inl e"
    by (simp add: level_of_service_in_front_of_vehicle_def)
  have "\<not> (\<exists>va'. load_ahead_loop classes dt (tol_of tolerance) vid offset
                        (observations g (seg_id seg)) [] = Inr va')"
    using Inl by (auto simp: load_ahead_def tol_of_def Let_def split: sum.splits)
  then have car: "classes ''car'' = None"
    using load_ahead_loop_no_error by blast
  have "e \<noteq> ZeroDivisionError"
    using Inl load_ahead_error by blast
  with los car show ?thesis by simp
next
  case (Inr r)
  then obtain total_pcu occ va where
    la: "load_ahead classes g dt (seg_id seg) tolerance vid offset = Inr (total_pcu, occ, va)"
    by (cases r) auto
  note los = los_cases [OF la, of limit]
  have pcu: "0 \<le> total_pcu" using la assms(1) by (rule load_ahead_pcu_nonneg)
  have fin: "density_model total_pcu seg offset = Inr (Fin x) \<Longrightarrow> 0 < x \<and> x \<le> 1"
    using pcu assms(2) by (rule density_model_range)
  have ne: "\<exists>r. density_model total_pcu seg offset = Inr r"
    using density_no_error [OF assms(2), of total_pcu offset]
    by (cases "n_vehicles_per_mile total_pcu seg offset") (auto simp: density_model_def)
  show ?thesis
    unfolding los using fin ne by (cases "limit \<and> offset = 0 \<and> seg_length seg \<ge> 10 \<and> occ > seg_length seg - offset") auto
qed



subsection \<open>Level of service on the example states\<close>

lemma view_jam_eq:
  "view_jam = \<lparr>fcd_by_segment = [(''s1'', [fcd_a, fcd_b])],
               car_to_segment = [1 \<mapsto> ''s1'', 2 \<mapsto> ''s1''],
               modified_segments = [''s1'']\<rparr>"
  by (simp add: view_jam_def add_def init_def getitem_default_def Let_def fcd_a_def fcd_b_def seg_short_def)

lemma view_entering_eq:
  "view_entering = \<lparr>fcd_by_segment = [(''s2'', [fcd_z])],
               car_to_segment = [3 \<mapsto> ''s2''],
               modified_segments = [''s2'']\<rparr>"
  by (simp add: view_entering_def add_def init_def getitem_default_def Let_def fcd_z_def seg_long_def)

lemma load_ahead_view_jam:
  "load_ahead classes_example view_jam 100 ''s1'' None (- 1) 0
     = Inr (2, 14, [(1, car_params), (2, car_params)])"
  by (simp add: view_jam_eq load_ahead_def observations_def fcd_a_def fcd_b_def
        classes_example_def car_params_def)


text \<open>
  The state with two cars, without the limit mode: the finite score 0.697664.
\<close>

theorem finite_score_range_witness:
  "(\<forall>p \<in> ran classes_example. 0 \<le> pcu p) \<and> 1 \<le> lanes seg_short
   \<and> level_of_service_in_front_of_vehicle classes_example view_jam 100 seg_short (- 1) 0 None False
       = Inr (Fin 0.697664)
   \<and> (0::real) < 0.697664 \<and> (0.697664::real) \<le> 1"
proof -
  have h1: "\<forall>p \<in> ran classes_example. 0 \<le> pcu p"
    by (simp add: classes_example_def car_params_def)
  have h2: "1 \<le> lanes seg_short" by (simp add: seg_short_def)
  have la: "load_ahead classes_example view_jam 100 (seg_id seg_short) None (- 1) 0
     = Inr (2, 14, [(1, car_params), (2, car_params)])"
    using load_ahead_view_jam by (simp add: seg_short_def)
  have v: "level_of_service_in_front_of_vehicle classes_example view_jam 100 seg_short (- 1) 0 None False
       = Inr (Fin 0.697664)"
    unfolding los_cases [OF la] by (simp add: density_model_def
          n_vehicles_per_mile_def ending_length_def mile_def seg_short_def ranges_def reverse_los_def)
  show ?thesis
    using h1 h2 v finite_score_range [OF h1 h2, of view_jam 100 "- 1" 0 None False "0.697664"]
    by simp
qed

text \<open>
  Both branches: the short segment (10 m) uses the 200 m window, the long one (500 m, two
  lanes) divides by \<open>500 * 2\<close>.
\<close>

theorem density_normalisation_witness:
  "seg_length seg_short - 0 < 200
   \<and> n_vehicles_per_mile 2 seg_short 0 = Inr (2 * 1609.344 / 200)
   \<and> \<not> seg_length seg_long - 0 < 200 \<and> lanes seg_long \<noteq> 0
   \<and> n_vehicles_per_mile 20 seg_long 0 = Inr (20 * 1609.344 / (500 * 2))
   \<and> load_ahead classes_example view_jam 100 (seg_id seg_short) None (- 1) 0
       = Inr (2, 14, [(1, car_params), (2, car_params)])
   \<and> level_of_service_in_front_of_vehicle classes_example view_jam 100 seg_short (- 1) 0 None False
       = Inr (Fin 0.697664)"
proof -
  have la: "load_ahead classes_example view_jam 100 (seg_id seg_short) None (- 1) 0
     = Inr (2, 14, [(1, car_params), (2, car_params)])"
    using load_ahead_view_jam by (simp add: seg_short_def)
  have a: "seg_length seg_short - 0 < 200" by (simp add: seg_short_def)
  have b: "\<not> seg_length seg_long - 0 < 200 \<and> lanes seg_long \<noteq> 0" by (simp add: seg_long_def)
  have c: "case_sum Inl (\<lambda>n. Inr (reverse_los (los_loop ranges n))) (Inr (2 * 1609.344 / 200))
             = (Inr (Fin 0.697664) :: py_error + pyfloat)"
    by (simp add: ranges_def reverse_los_def)
  show ?thesis
    using a b c la
      density_normalisation [of seg_short 0 2 classes_example view_jam 100 None "- 1" 14
         "[(1, car_params), (2, car_params)]" False]
      density_normalisation [of seg_long 0 20 classes_example view_jam 100 None "- 1" 14
         "[(1, car_params), (2, car_params)]" False]
    by (simp add: seg_long_def)
qed

text \<open>
  Claim C7 says that without a reference vehicle every record of the segment in the
  time window counts, whatever its offset; the comment of \<open>load_ahead\<close> says the same
  ("if case vehicle_id not set, then all vehicles are summed"). The code compares the
  offset of each record with the default reference offset 0, strictly. The state below
  holds one vehicle that has just entered its segment, at offset 0 and at the time asked
  for; the load ahead is empty and the convenience form reports free flow.
\<close>

theorem load_ahead_skips_offset_zero:
  "observations view_entering ''s2'' = [fcd_z]
   \<and> datetime fcd_z = 100 \<and> vehicle_id fcd_z \<noteq> - 1 \<and> start_offset fcd_z = 0
   \<and> load_ahead classes_example view_entering 100 ''s2'' None (- 1) 0 = Inr (0, 0, [])
   \<and> level_of_service_in_time_at_segment classes_example view_entering 100 seg_long = Inr (Fin 1)"
  by (simp add: view_entering_eq observations_def load_ahead_def fcd_z_def seg_long_def
        level_of_service_in_time_at_segment_def level_of_service_in_front_of_vehicle_def
        density_model_def n_vehicles_per_mile_def ending_length_def mile_def ranges_def
        reverse_los_def)


subsection \<open>The index under add, get_segment_speed and take_segment_speeds\<close>

lemma getitem_default_fst:
  "fst (getitem_default d sid) = (case map_of d sid of None \<Rightarrow> [] | Some fs \<Rightarrow> fs)"
  by (simp add: getitem_default_def split: option.splits)

lemma getitem_default_lookup:
  "map_of (snd (getitem_default d sid)) =
     (map_of d)(sid \<mapsto> (case map_of d sid of None \<Rightarrow> [] | Some fs \<Rightarrow> fs))"
  by (auto simp: getitem_default_def fun_eq_iff map_add_def split: option.splits)

lemma getitem_default_keys:
  "map fst (snd (getitem_default d sid)) =
     (if sid \<in> fst ` set d then map fst d else map fst d @ [sid])"
  by (auto simp: getitem_default_def map_of_eq_None_iff split: option.splits)
     (metis domI domIff fst_conv image_eqI map_of_SomeD)

lemma getitem_default_distinct:
  "distinct (map fst d) \<Longrightarrow> distinct (map fst (snd (getitem_default d sid)))"
  by (simp add: getitem_default_keys)

lemma getitem_default_observations:
  "(case map_of (snd (getitem_default d sid)) s of None \<Rightarrow> [] | Some fs \<Rightarrow> fs)
     = (case map_of d s of None \<Rightarrow> [] | Some fs \<Rightarrow> fs)"
  by (simp add: getitem_default_lookup split: option.splits)

lemma add_fcd_by_segment:
  "fcd_by_segment (add g r) =
     AList.update (seg_id (segment r)) (observations g (seg_id (segment r)) @ [r])
       (snd (getitem_default (fcd_by_segment g) (seg_id (segment r))))"
  by (simp add: add_def Let_def observations_def getitem_default_fst [symmetric]
        split: prod.splits option.splits)

lemma add_observations:
  "observations (add g r) s =
     (if s = seg_id (segment r) then observations g s @ [r] else observations g s)"
  by (simp add: observations_def add_fcd_by_segment AList.update_conv' getitem_default_lookup)

lemma add_modified:
  "set (modified_segments (add g r)) =
     set (modified_segments g) \<union> {seg_id (segment r)}
       \<union> (case car_to_segment g (vehicle_id r) of
            None \<Rightarrow> {}
          | Some old_segment \<Rightarrow> if old_segment \<noteq> seg_id (segment r) then {old_segment} else {})"
  by (auto simp: add_def Let_def split: prod.splits option.splits)

lemma add_car_to_segment:
  "car_to_segment (add g r) = (car_to_segment g)(vehicle_id r \<mapsto> seg_id (segment r))"
  by (auto simp: add_def Let_def fun_eq_iff split: prod.splits option.splits)

lemma add_distinct:
  "distinct (map fst (fcd_by_segment g)) \<Longrightarrow> distinct (map fst (fcd_by_segment (add g r)))"
  by (simp add: add_fcd_by_segment AList.distinct_update getitem_default_distinct)

lemma get_segment_speed_fst:
  "fst (get_segment_speed g sid) = speed_of_records (observations g sid)"
  by (simp add: get_segment_speed_def observations_def getitem_default_fst [symmetric]
        split: prod.splits)

lemma get_segment_speed_snd:
  "snd (get_segment_speed g sid) =
     g\<lparr>fcd_by_segment := snd (getitem_default (fcd_by_segment g) sid)\<rparr>"
  by (simp add: get_segment_speed_def split: prod.splits)

lemma get_segment_speed_observations:
  "observations (snd (get_segment_speed g sid)) s = observations g s"
  by (simp add: get_segment_speed_snd observations_def getitem_default_observations)

lemma get_segment_speed_frame:
  "modified_segments (snd (get_segment_speed g sid)) = modified_segments g"
  "car_to_segment (snd (get_segment_speed g sid)) = car_to_segment g"
  by (simp_all add: get_segment_speed_snd)

lemma get_segment_speed_distinct:
  "distinct (map fst (fcd_by_segment g)) \<Longrightarrow>
   distinct (map fst (fcd_by_segment (snd (get_segment_speed g sid))))"
  by (simp add: get_segment_speed_snd getitem_default_distinct)

lemma take_loop_step:
  "take_loop (sid # sids) speeds g =
     take_loop sids (speeds(sid \<mapsto> fst (get_segment_speed g sid))) (snd (get_segment_speed g sid))"
  by (simp add: split_def Let_def)

lemma take_loop_speeds:
  "fst (take_loop sids speeds g) =
     (\<lambda>s. if s \<in> set sids then Some (speed_of_records (observations g s)) else speeds s)"
proof (induction sids arbitrary: speeds g)
  case Nil
  then show ?case by simp
next
  case (Cons sid sids)
  show ?case
    unfolding take_loop_step Cons.IH
    by (auto simp: fun_eq_iff get_segment_speed_observations get_segment_speed_fst)
qed

lemma take_loop_frame:
  "observations (snd (take_loop sids speeds g)) s = observations g s"
  "modified_segments (snd (take_loop sids speeds g)) = modified_segments g"
  "car_to_segment (snd (take_loop sids speeds g)) = car_to_segment g"
proof (induction sids arbitrary: speeds g)
  case Nil
  { case 1 show ?case by simp }
  { case 2 show ?case by simp }
  { case 3 show ?case by simp }
next
  case (Cons sid sids)
  { case 1 show ?case unfolding take_loop_step Cons.IH(1) by (rule get_segment_speed_observations) }
  { case 2 show ?case unfolding take_loop_step Cons.IH(2) by (rule get_segment_speed_frame) }
  { case 3 show ?case unfolding take_loop_step Cons.IH(3) by (rule get_segment_speed_frame) }
qed

lemma observations_modified_update:
  "observations (g\<lparr>modified_segments := m\<rparr>) s = observations g s"
  by (simp add: observations_def)

lemma take_segment_speeds_fst:
  "fst (take_segment_speeds g) =
     (\<lambda>s. if s \<in> set (modified_segments g) then Some (speed_of_records (observations g s)) else None)"
  by (simp add: take_segment_speeds_def split_def Let_def take_loop_speeds)

lemma take_segment_speeds_snd:
  "modified_segments (snd (take_segment_speeds g)) = []"
  "observations (snd (take_segment_speeds g)) s = observations g s"
  "car_to_segment (snd (take_segment_speeds g)) = car_to_segment g"
  by (simp_all add: take_segment_speeds_def split_def Let_def take_loop_frame
        observations_modified_update)


subsection \<open>Retention\<close>

lemma filter_same_length: "length (filter P xs) = length xs \<Longrightarrow> filter P xs = xs"
  by (metis filter_True length_filter_less less_irrefl)

lemma observations_absent:
  assumes "s \<notin> fst ` set (fcd_by_segment g)"
  shows "observations g s = []"
proof -
  from assms have "map_of (fcd_by_segment g) s = None"
    by (simp add: map_of_eq_None_iff)
  then show ?thesis by (simp add: observations_def)
qed

lemma drop_old_loop_step:
  "drop_old_loop t ((k, old) # items) g =
     drop_old_loop t items
       (if length (kept t (observations g k)) \<noteq> length old
        then g\<lparr>fcd_by_segment := AList.update k (kept t (observations g k)) (fcd_by_segment g),
               modified_segments := List.insert k (modified_segments g)\<rparr>
        else g)"
  by (simp add: kept_def Let_def)

lemma drop_old_loop_car_to_segment:
  "car_to_segment (drop_old_loop t items g) = car_to_segment g"
proof (induction items arbitrary: g)
  case Nil
  then show ?case by simp
next
  case (Cons item items)
  obtain k old where item: "item = (k, old)" by (cases item)
  show ?case
    unfolding item drop_old_loop_step Cons.IH by simp
qed

lemma drop_old_loop_keys:
  "(\<forall>(k, old) \<in> set items. k \<in> fst ` set (fcd_by_segment g)) \<Longrightarrow>
   map fst (fcd_by_segment (drop_old_loop t items g)) = map fst (fcd_by_segment g)"
proof (induction items arbitrary: g)
  case Nil
  then show ?case by simp
next
  case (Cons item items)
  obtain k old where item: "item = (k, old)" by (cases item)
  let ?g = "if length (kept t (observations g k)) \<noteq> length old
        then g\<lparr>fcd_by_segment := AList.update k (kept t (observations g k)) (fcd_by_segment g),
               modified_segments := List.insert k (modified_segments g)\<rparr>
        else g"
  from Cons.prems item have k: "k \<in> fst ` set (fcd_by_segment g)" by auto
  then have keys: "map fst (fcd_by_segment ?g) = map fst (fcd_by_segment g)"
    by (simp add: AList.update_keys)
  then have "fst ` set (fcd_by_segment ?g) = fst ` set (fcd_by_segment g)"
    by (metis set_map)
  with Cons.prems have "\<forall>(k, old) \<in> set items. k \<in> fst ` set (fcd_by_segment ?g)"
    by auto
  from Cons.IH [OF this] keys show ?case
    unfolding item drop_old_loop_step by simp
qed

lemma drop_old_loop_observations:
  assumes "distinct (map fst items)"
    and "\<forall>(k, old) \<in> set items. map_of (fcd_by_segment g) k = Some old"
  shows "observations (drop_old_loop t items g) s =
           (if s \<in> fst ` set items then kept t (observations g s) else observations g s)"
  using assms
proof (induction items arbitrary: g)
  case Nil
  then show ?case by simp
next
  case (Cons item items)
  obtain k old where item: "item = (k, old)" by (cases item)
  let ?g = "if length (kept t (observations g k)) \<noteq> length old
        then g\<lparr>fcd_by_segment := AList.update k (kept t (observations g k)) (fcd_by_segment g),
               modified_segments := List.insert k (modified_segments g)\<rparr>
        else g"
  from Cons.prems item have old: "observations g k = old"
    by (simp add: observations_def)
  have obs: "observations ?g s' = (if s' = k then kept t (observations g s') else observations g s')" for s'
    using old by (auto simp: observations_def AList.update_conv' kept_def filter_same_length)
  from Cons.prems item have d: "distinct (map fst items)" and k: "k \<notin> fst ` set items"
    by auto
  have "\<forall>(k', old') \<in> set items. map_of (fcd_by_segment ?g) k' = Some old'"
  proof clarify
    fix k' old' assume in_items: "(k', old') \<in> set items"
    with k have "k' \<noteq> k" by force
    moreover from in_items Cons.prems(2) have "map_of (fcd_by_segment g) k' = Some old'" by auto
    ultimately show "map_of (fcd_by_segment ?g) k' = Some old'"
      by (simp add: AList.update_conv')
  qed
  from Cons.IH [OF d this] show ?case
    unfolding item drop_old_loop_step using k by (auto simp: obs)
qed

lemma drop_old_loop_modified:
  assumes "distinct (map fst items)"
    and "\<forall>(k, old) \<in> set items. map_of (fcd_by_segment g) k = Some old"
  shows "set (modified_segments (drop_old_loop t items g)) =
           set (modified_segments g)
           \<union> {k \<in> fst ` set items. length (kept t (observations g k)) \<noteq> length (observations g k)}"
  using assms
proof (induction items arbitrary: g)
  case Nil
  then show ?case by simp
next
  case (Cons item items)
  obtain k old where item: "item = (k, old)" by (cases item)
  let ?g = "if length (kept t (observations g k)) \<noteq> length old
        then g\<lparr>fcd_by_segment := AList.update k (kept t (observations g k)) (fcd_by_segment g),
               modified_segments := List.insert k (modified_segments g)\<rparr>
        else g"
  from Cons.prems item have old: "observations g k = old"
    by (simp add: observations_def)
  from Cons.prems item have d: "distinct (map fst items)" and k: "k \<notin> fst ` set items"
    by auto
  have obs: "observations ?g s' = observations g s'" if "s' \<noteq> k" for s'
    using that by (auto simp: observations_def AList.update_conv')
  have inv: "\<forall>(k', old') \<in> set items. map_of (fcd_by_segment ?g) k' = Some old'"
  proof clarify
    fix k' old' assume in_items: "(k', old') \<in> set items"
    with k have "k' \<noteq> k" by force
    moreover from in_items Cons.prems(2) have "map_of (fcd_by_segment g) k' = Some old'" by auto
    ultimately show "map_of (fcd_by_segment ?g) k' = Some old'"
      by (simp add: AList.update_conv')
  qed
  have m: "set (modified_segments ?g) = set (modified_segments g)
      \<union> (if length (kept t (observations g k)) \<noteq> length (observations g k) then {k} else {})"
    using old by auto
  have "{k' \<in> fst ` set items. length (kept t (observations ?g k')) \<noteq> length (observations ?g k')}
      = {k' \<in> fst ` set items. length (kept t (observations g k')) \<noteq> length (observations g k')}"
    using k obs by (metis (no_types, lifting))
  with Cons.IH [OF d inv] m show ?case
    unfolding item drop_old_loop_step by auto
qed

lemma items_lookup:
  "distinct (map fst d) \<Longrightarrow> \<forall>(k, old) \<in> set d. map_of d k = Some old"
  by auto

lemma drop_old_observations:
  assumes "distinct (map fst (fcd_by_segment g))"
  shows "observations (drop_old g t) s = kept t (observations g s)"
proof -
  have "observations (drop_old g t) s =
      (if s \<in> fst ` set (fcd_by_segment g) then kept t (observations g s) else observations g s)"
    unfolding drop_old_def
    using assms items_lookup [OF assms] by (rule drop_old_loop_observations)
  moreover have "observations g s = []" if "s \<notin> fst ` set (fcd_by_segment g)"
    using that by (rule observations_absent)
  ultimately show ?thesis by (auto simp: kept_def)
qed

lemma drop_old_modified:
  assumes "distinct (map fst (fcd_by_segment g))"
  shows "set (modified_segments (drop_old g t)) =
           set (modified_segments g)
           \<union> {s. length (observations (drop_old g t) s) \<noteq> length (observations g s)}"
proof -
  have "set (modified_segments (drop_old g t)) = set (modified_segments g)
      \<union> {k \<in> fst ` set (fcd_by_segment g).
            length (kept t (observations g k)) \<noteq> length (observations g k)}"
    unfolding drop_old_def
    using assms items_lookup [OF assms] by (rule drop_old_loop_modified)
  moreover have "observations g s = []" if "s \<notin> fst ` set (fcd_by_segment g)" for s
    using that by (rule observations_absent)
  then have "{k \<in> fst ` set (fcd_by_segment g).
            length (kept t (observations g k)) \<noteq> length (observations g k)}
     = {s. length (kept t (observations g s)) \<noteq> length (observations g s)}"
    by (force simp: kept_def)
  ultimately show ?thesis
    by (simp add: drop_old_observations [OF assms])
qed

lemma drop_old_distinct:
  assumes "distinct (map fst (fcd_by_segment g))"
  shows "distinct (map fst (fcd_by_segment (drop_old g t)))"
proof -
  have "map fst (fcd_by_segment (drop_old g t)) = map fst (fcd_by_segment g)"
    unfolding drop_old_def by (rule drop_old_loop_keys) force
  with assms show ?thesis by simp
qed


subsection \<open>The aggregate speed\<close>

lemma speeds_loop_keys:
  "fst ` set (speeds_loop xs acc) = fst ` set acc \<union> vehicle_id ` set xs"
  by (induction xs arbitrary: acc) (auto simp: AList.dom_update)

lemma speeds_loop_distinct:
  "distinct (map fst acc) \<Longrightarrow> distinct (map fst (speeds_loop xs acc))"
  by (induction xs arbitrary: acc) (simp_all add: AList.distinct_update)

lemma speeds_loop_lookup:
  "map_of (speeds_loop xs acc) v =
     (case filter (\<lambda>fcd. vehicle_id fcd = v) xs of
        [] \<Rightarrow> map_of acc v
      | f # fs \<Rightarrow> Some (speed (last (f # fs))))"
proof (induction xs arbitrary: acc)
  case Nil
  then show ?case by simp
next
  case (Cons x xs)
  show ?case
    by (simp add: Cons.IH AList.update_conv' split: list.splits)
qed

lemma sum_list_values:
  "distinct (map fst al) \<Longrightarrow>
   sum_list (map snd al) = (\<Sum>k \<in> fst ` set al. the (map_of al k))"
proof (induction al)
  case Nil
  then show ?case by simp
next
  case (Cons p al)
  obtain k v where p: "p = (k, v)" by (cases p)
  from Cons.prems p have k: "k \<notin> fst ` set al" and d: "distinct (map fst al)" by auto
  have "(\<Sum>k' \<in> fst ` set al. the (map_of ((k, v) # al) k')) = (\<Sum>k' \<in> fst ` set al. the (map_of al k'))"
    using k by (intro sum.cong) auto
  with Cons.IH [OF d] k show ?case
    by (simp add: p)
qed

lemma speed_of_records_refines:
  "speed_of_records fs = spec_segment_speed fs"
proof (cases "fs = []")
  case True
  then show ?thesis by (simp add: speed_of_records_def spec_segment_speed_def)
next
  case False
  let ?xs = "sort_key datetime fs"
  let ?al = "speeds_loop ?xs []"
  let ?vs = "remdups (map vehicle_id fs)"
  have keys: "fst ` set ?al = vehicle_id ` set fs"
    by (simp add: speeds_loop_keys)
  have dist: "distinct (map fst ?al)"
    by (simp add: speeds_loop_distinct)
  have len: "length ?al = length ?vs"
  proof -
    have "length ?al = length (map fst ?al)" by simp
    also have "\<dots> = card (set (map fst ?al))" using dist by (simp only: distinct_card)
    also have "\<dots> = card (set ?vs)" using keys by simp
    also have "\<dots> = length ?vs" by (simp only: distinct_card distinct_remdups)
    finally show ?thesis .
  qed
  have "?vs \<noteq> []" using False by simp
  with len have ne: "length (map snd ?al) \<noteq> 0" by simp
  have look: "the (map_of ?al v) = spec_latest_speed fs v" if "v \<in> vehicle_id ` set fs" for v
  proof -
    from that have "filter (\<lambda>fcd. vehicle_id fcd = v) ?xs \<noteq> []"
      by (auto simp: filter_empty_conv)
    then show ?thesis
      by (simp add: speeds_loop_lookup spec_latest_speed_def split: list.splits)
  qed
  have "sum_list (map snd ?al) = (\<Sum>k \<in> fst ` set ?al. the (map_of ?al k))"
    using dist by (rule sum_list_values)
  also have "\<dots> = (\<Sum>v \<in> vehicle_id ` set fs. spec_latest_speed fs v)"
    unfolding keys by (rule sum.cong) (simp_all add: look)
  also have "\<dots> = sum_list (map (spec_latest_speed fs) ?vs)"
    by (simp add: sum_list_distinct_conv_sum_set)
  finally have sum: "sum_list (map snd ?al) = sum_list (map (spec_latest_speed fs) ?vs)" .
  show ?thesis
    using False ne sum len
    by (simp add: speed_of_records_def spec_segment_speed_def Let_def del: length_0_conv)
qed

lemma speed_of_records_None: "speed_of_records fs = None \<longleftrightarrow> fs = []"
  by (simp add: speed_of_records_refines spec_segment_speed_def Let_def)

lemma speed_of_two_records:
  assumes "vehicle_id r1 = vehicle_id r2" and "datetime r1 < datetime r2"
  shows "speed_of_records [r1, r2] = Some (speed r2)"
    and "speed_of_records [r2, r1] = Some (speed r2)"
  using assms by (simp_all add: speed_of_records_def)


subsection \<open>The contracts of the index\<close>

lemma view_example_eq:
  "view_example = \<lparr>fcd_by_segment = [(''s2'', [fcd_e1, fcd_e2])],
               car_to_segment = [1 \<mapsto> ''s2''],
               modified_segments = [''s2'']\<rparr>"
  by (simp add: view_example_def add_def init_def getitem_default_def Let_def
        fcd_e1_def fcd_e2_def seg_long_def)

lemma view_seen_eq:
  "view_seen = \<lparr>fcd_by_segment = [(''s1'', [fcd_a, fcd_b, fcd_c])],
               car_to_segment = [1 \<mapsto> ''s1'', 2 \<mapsto> ''s1''],
               modified_segments = []\<rparr>"
  by (simp add: view_seen_def view_jam_eq add_def take_segment_speeds_def get_segment_speed_def
        getitem_default_def Let_def fcd_c_def seg_short_def)

lemma view_moved_eq:
  "view_moved = \<lparr>fcd_by_segment = [(''s1'', [fcd_a, fcd_b, fcd_c]), (''s2'', [fcd_m])],
               car_to_segment = [1 \<mapsto> ''s2'', 2 \<mapsto> ''s1''],
               modified_segments = [''s1'', ''s2'']\<rparr>"
  by (simp add: view_moved_def view_seen_eq add_def getitem_default_def Let_def
        fcd_m_def seg_long_def fun_upd_twist)

lemma view_drained_eq:
  "view_drained = \<lparr>fcd_by_segment = [(''s1'', [fcd_a, fcd_b, fcd_c]), (''s2'', [fcd_m])],
               car_to_segment = [1 \<mapsto> ''s2'', 2 \<mapsto> ''s1''],
               modified_segments = []\<rparr>"
  by (simp add: view_drained_def view_moved_eq take_segment_speeds_def get_segment_speed_def
        getitem_default_def Let_def)

lemma foldl_add_modified:
  "set (modified_segments (foldl add g rs)) =
     set (modified_segments g) \<union> touched_by_adds (car_to_segment g) rs"
proof (induction rs arbitrary: g)
  case Nil
  then show ?case by simp
next
  case (Cons r rs)
  show ?case
    unfolding foldl_Cons Cons.IH add_car_to_segment add_modified touched_by_adds.simps
    by blast
qed

lemma take_loop_distinct:
  "distinct (map fst (fcd_by_segment g)) \<Longrightarrow>
   distinct (map fst (fcd_by_segment (snd (take_loop sids speeds g))))"
proof (induction sids arbitrary: speeds g)
  case Nil
  then show ?case by simp
next
  case (Cons sid sids)
  show ?case
    unfolding take_loop_step
    by (rule Cons.IH) (rule get_segment_speed_distinct [OF Cons.prems])
qed

lemma take_segment_speeds_distinct:
  "distinct (map fst (fcd_by_segment g)) \<Longrightarrow>
   distinct (map fst (fcd_by_segment (snd (take_segment_speeds g))))"
  by (simp add: take_segment_speeds_def split_def Let_def take_loop_distinct)

lemma take_segment_speeds_dom:
  "dom (fst (take_segment_speeds g)) = set (modified_segments g)"
  by (auto simp: take_segment_speeds_fst split: if_splits)

text \<open>
  Claim C2. The keys of the mapping \<open>take_segment_speeds\<close> returns are exactly the
  modified segments, each with its current \<open>get_segment_speed\<close> result. The loop that
  computes the values leaves the set of modified segments as it was, and the set is
  empty afterwards; a second call right after returns the empty mapping. After a drain
  and any sequence \<open>rs\<close> of calls of \<open>add\<close>, the next drain has exactly the segments the
  sequence touched (the segment of each record and each segment a vehicle left); after
  a drain and a call of \<open>drop_old\<close>, exactly the segments that lost records.
\<close>

theorem take_segment_speeds_drains_dirty:
  "dom (fst (take_segment_speeds g)) = set (modified_segments g)
   \<and> (\<forall>s \<in> set (modified_segments g).
         fst (take_segment_speeds g) s = Some (fst (get_segment_speed g s)))
   \<and> modified_segments (snd (take_loop (modified_segments g) Map.empty g)) = modified_segments g
   \<and> modified_segments (snd (take_segment_speeds g)) = []
   \<and> fst (take_segment_speeds (snd (take_segment_speeds g))) = Map.empty
   \<and> dom (fst (take_segment_speeds (foldl add (snd (take_segment_speeds g)) rs)))
       = touched_by_adds (car_to_segment g) rs
   \<and> (distinct (map fst (fcd_by_segment g)) \<longrightarrow>
        dom (fst (take_segment_speeds (drop_old (snd (take_segment_speeds g)) t)))
          = {s. length (kept t (observations g s)) \<noteq> length (observations g s)})"
proof -
  have a: "\<forall>s \<in> set (modified_segments g).
         fst (take_segment_speeds g) s = Some (fst (get_segment_speed g s))"
    by (simp add: take_segment_speeds_fst get_segment_speed_fst)
  have b: "fst (take_segment_speeds (snd (take_segment_speeds g))) = Map.empty"
    by (simp add: take_segment_speeds_fst take_segment_speeds_snd)
  have c: "dom (fst (take_segment_speeds (foldl add (snd (take_segment_speeds g)) rs)))
       = touched_by_adds (car_to_segment g) rs"
    by (simp add: take_segment_speeds_dom foldl_add_modified take_segment_speeds_snd)
  have d: "dom (fst (take_segment_speeds (drop_old (snd (take_segment_speeds g)) t)))
          = {s. length (kept t (observations g s)) \<noteq> length (observations g s)}"
    if "distinct (map fst (fcd_by_segment g))"
  proof -
    from that have "distinct (map fst (fcd_by_segment (snd (take_segment_speeds g))))"
      by (rule take_segment_speeds_distinct)
    then show ?thesis
      by (simp add: take_segment_speeds_dom drop_old_modified drop_old_observations
            take_segment_speeds_snd)
  qed
  show ?thesis
    using a b c d by (simp add: take_segment_speeds_dom take_loop_frame take_segment_speeds_snd)
qed

text \<open>
  Claim C3. \<open>add g r\<close> appends \<open>r\<close> to the records of its segment and marks that segment
  modified; the records of every other segment \<open>s\<close> stay as they are. When the vehicle
  was last seen on another segment, that segment is marked too; otherwise nothing else
  is marked. In every case the vehicle is on the segment of \<open>r\<close> afterwards.
\<close>

theorem add_contract:
  "observations (add g r) (seg_id (segment r)) = observations g (seg_id (segment r)) @ [r]
   \<and> seg_id (segment r) \<in> set (modified_segments (add g r))
   \<and> (s \<noteq> seg_id (segment r) \<longrightarrow> observations (add g r) s = observations g s)
   \<and> (car_to_segment g (vehicle_id r) = Some previous \<and> previous \<noteq> seg_id (segment r) \<longrightarrow>
        previous \<in> set (modified_segments (add g r))
        \<and> set (modified_segments (add g r))
            = set (modified_segments g) \<union> {seg_id (segment r), previous})
   \<and> (car_to_segment g (vehicle_id r) = Some (seg_id (segment r))
        \<or> car_to_segment g (vehicle_id r) = None \<longrightarrow>
        set (modified_segments (add g r)) = set (modified_segments g) \<union> {seg_id (segment r)})
   \<and> car_to_segment (add g r) = (car_to_segment g)(vehicle_id r \<mapsto> seg_id (segment r))"
  by (auto simp: add_observations add_modified add_car_to_segment)

text \<open>
  Claim C8. In an index whose dict has each key once, \<open>drop_old g t\<close> leaves of every
  segment \<open>s\<close> exactly the records that are not older than \<open>t\<close>, in their order, and
  adds to the modified segments exactly those whose number of records changed. The
  vehicle mapping and the keys of the dict stay as they are.
\<close>

theorem drop_old_contract:
  assumes "distinct (map fst (fcd_by_segment g))"
  shows "observations (drop_old g t) s = filter (\<lambda>fcd. \<not> datetime fcd < t) (observations g s)
     \<and> set (modified_segments (drop_old g t))
         = set (modified_segments g)
           \<union> {s'. length (observations (drop_old g t) s') \<noteq> length (observations g s')}
     \<and> car_to_segment (drop_old g t) = car_to_segment g
     \<and> map fst (fcd_by_segment (drop_old g t)) = map fst (fcd_by_segment g)"
proof -
  have "map fst (fcd_by_segment (drop_old g t)) = map fst (fcd_by_segment g)"
    unfolding drop_old_def by (rule drop_old_loop_keys) force
  moreover have "car_to_segment (drop_old g t) = car_to_segment g"
    unfolding drop_old_def by (rule drop_old_loop_car_to_segment)
  moreover have "kept t (observations g s) = filter (\<lambda>fcd. \<not> datetime fcd < t) (observations g s)"
    by (simp add: kept_def not_less)
  ultimately show ?thesis
    using drop_old_observations [OF assms, of t s] drop_old_modified [OF assms, of t]
    by simp
qed

text \<open>
  Claim C9. \<open>get_segment_speed\<close> leaves the records of every segment \<open>s\<close>, the modified
  segments and the vehicle mapping as they are. The stored dict itself is unchanged for
  a segment it has; for one it does not have, the \<open>defaultdict\<close> gains that key with
  an empty list, which no operation of the index tells from an absent key.
\<close>

theorem get_segment_speed_leaves_index:
  "observations (snd (get_segment_speed g sid)) s = observations g s
   \<and> modified_segments (snd (get_segment_speed g sid)) = modified_segments g
   \<and> car_to_segment (snd (get_segment_speed g sid)) = car_to_segment g
   \<and> fcd_by_segment (snd (get_segment_speed g sid))
       = (if sid \<in> fst ` set (fcd_by_segment g) then fcd_by_segment g
          else fcd_by_segment g @ [(sid, [])])"
proof -
  have "fcd_by_segment (snd (get_segment_speed g sid))
       = (if sid \<in> fst ` set (fcd_by_segment g) then fcd_by_segment g
          else fcd_by_segment g @ [(sid, [])])"
  proof (cases "map_of (fcd_by_segment g) sid")
    case None
    then have "sid \<notin> fst ` set (fcd_by_segment g)"
      by (simp add: map_of_eq_None_iff)
    with None show ?thesis
      by (simp add: get_segment_speed_snd getitem_default_def)
  next
    case (Some fs)
    then have "sid \<in> fst ` set (fcd_by_segment g)"
      by (metis map_of_eq_None_iff option.distinct(1))
    with Some show ?thesis
      by (simp add: get_segment_speed_snd getitem_default_def)
  qed
  then show ?thesis
    by (simp add: get_segment_speed_observations get_segment_speed_frame)
qed

text \<open>
  Claim C1. \<open>get_segment_speed\<close> returns no data exactly when the segment has no
  records; otherwise it returns the mean of the latest speeds per vehicle, as the
  specification words it. When the records of the segment are two of one vehicle, stored
  in either order, the result is the speed of the later one.
\<close>

theorem get_segment_speed_mean_latest:
  "(fst (get_segment_speed g sid) = None) = (observations g sid = [])
   \<and> fst (get_segment_speed g sid) = spec_segment_speed (observations g sid)
   \<and> (vehicle_id r1 = vehicle_id r2 \<and> datetime r1 < datetime r2
        \<and> (observations g sid = [r1, r2] \<or> observations g sid = [r2, r1]) \<longrightarrow>
      fst (get_segment_speed g sid) = Some (speed r2))"
  using speed_of_two_records [of r1 r2]
  by (auto simp: get_segment_speed_fst speed_of_records_None speed_of_records_refines [symmetric])


subsection \<open>The contracts on the example states\<close>

lemma drop_old_view_drained:
  "drop_old view_drained 150 =
     \<lparr>fcd_by_segment = [(''s1'', [fcd_c]), (''s2'', [fcd_m])],
      car_to_segment = [1 \<mapsto> ''s2'', 2 \<mapsto> ''s1''],
      modified_segments = [''s1'']\<rparr>"
  by (simp add: drop_old_def view_drained_eq observations_def Let_def
        fcd_a_def fcd_b_def fcd_c_def fcd_m_def)

lemma speed_view_moved:
  "speed_of_records [fcd_a, fcd_b, fcd_c] = Some 15"
  "speed_of_records [fcd_m] = Some 40"
  "speed_of_records [fcd_e1, fcd_e2] = Some 20"
  "speed_of_records [] = None"
  by (simp_all add: speed_of_records_def fcd_a_def fcd_b_def fcd_c_def fcd_m_def fcd_e1_def fcd_e2_def)

text \<open>
  The example of the specification: speeds 10 and 20 of one vehicle at times 1 and 2
  give 20; a segment without records gives no data.
\<close>

theorem get_segment_speed_mean_latest_witness:
  "vehicle_id fcd_e1 = vehicle_id fcd_e2 \<and> datetime fcd_e1 < datetime fcd_e2
   \<and> speed fcd_e1 = 10 \<and> speed fcd_e2 = 20
   \<and> observations view_example ''s2'' = [fcd_e1, fcd_e2]
   \<and> fst (get_segment_speed view_example ''s2'') = Some 20
   \<and> spec_segment_speed [fcd_e1, fcd_e2] = Some 20
   \<and> observations view_example ''s1'' = []
   \<and> fst (get_segment_speed view_example ''s1'') = None"
proof -
  have h: "vehicle_id fcd_e1 = vehicle_id fcd_e2 \<and> datetime fcd_e1 < datetime fcd_e2
      \<and> speed fcd_e1 = 10 \<and> speed fcd_e2 = 20"
    by (simp add: fcd_e1_def fcd_e2_def)
  have o: "observations view_example ''s2'' = [fcd_e1, fcd_e2]"
    "observations view_example ''s1'' = []"
    by (simp_all add: view_example_eq observations_def)
  show ?thesis
    using h o get_segment_speed_mean_latest [of view_example "''s2''" fcd_e1 fcd_e2]
      get_segment_speed_mean_latest [of view_example "''s1''" fcd_e1 fcd_e2]
    by auto
qed

text \<open>
  With both segments modified the drain reports the mean 15 of the latest speeds 10 and
  20 on the first and 40 on the second; dropping the records older than 150 from the
  drained state marks the first segment only.
\<close>

theorem take_segment_speeds_drains_dirty_witness:
  "set (modified_segments view_moved) = {''s1'', ''s2''}
   \<and> fst (take_segment_speeds view_moved) ''s1'' = Some (Some 15)
   \<and> fst (take_segment_speeds view_moved) ''s2'' = Some (Some 40)
   \<and> dom (fst (take_segment_speeds view_moved)) = {''s1'', ''s2''}
   \<and> distinct (map fst (fcd_by_segment view_moved))
   \<and> dom (fst (take_segment_speeds (drop_old (snd (take_segment_speeds view_moved)) 150)))
       = {''s1''}"
proof -
  have m: "modified_segments view_moved = [''s1'', ''s2'']"
    and d: "distinct (map fst (fcd_by_segment view_moved))"
    by (simp_all add: view_moved_eq)
  have v: "fst (get_segment_speed view_moved ''s1'') = Some 15"
    "fst (get_segment_speed view_moved ''s2'') = Some 40"
    by (simp_all add: get_segment_speed_def getitem_default_def view_moved_eq speed_view_moved)
  have k: "{s. length (kept 150 (observations view_moved s)) \<noteq> length (observations view_moved s)}
      = {''s1''}"
    by (auto simp: view_moved_eq observations_def kept_def fcd_a_def fcd_b_def fcd_c_def fcd_m_def
          split: if_splits)
  show ?thesis
    using m d v k take_segment_speeds_drains_dirty [of view_moved "[]" 150]
    by auto
qed

text \<open>
  Vehicle 1 moves from the first segment to the second in a drained state: both are
  marked. The first record of an empty index marks its own segment only.
\<close>

theorem add_contract_witness:
  "car_to_segment view_seen (vehicle_id fcd_m) = Some ''s1'' \<and> ''s1'' \<noteq> seg_id (segment fcd_m)
   \<and> modified_segments view_seen = []
   \<and> set (modified_segments (add view_seen fcd_m)) = {''s2'', ''s1''}
   \<and> observations (add view_seen fcd_m) ''s2'' = [fcd_m]
   \<and> observations (add view_seen fcd_m) ''s1'' = [fcd_a, fcd_b, fcd_c]
   \<and> car_to_segment (add view_seen fcd_m) 1 = Some ''s2''
   \<and> car_to_segment init (vehicle_id fcd_a) = None
   \<and> set (modified_segments (add init fcd_a)) = {''s1''}"
proof -
  have h: "car_to_segment view_seen (vehicle_id fcd_m) = Some ''s1''"
    "''s1'' \<noteq> seg_id (segment fcd_m)" "seg_id (segment fcd_m) = ''s2''"
    "modified_segments view_seen = []" "vehicle_id fcd_m = 1"
    "observations view_seen ''s2'' = []" "observations view_seen ''s1'' = [fcd_a, fcd_b, fcd_c]"
    by (simp_all add: view_seen_eq fcd_m_def seg_long_def observations_def)
  have i: "car_to_segment init (vehicle_id fcd_a) = None" "modified_segments init = []"
    "seg_id (segment fcd_a) = ''s1''"
    by (simp_all add: init_def fcd_a_def seg_short_def)
  show ?thesis
    using h i add_contract [of view_seen fcd_m "''s1''" "''s1''"]
      add_contract [of init fcd_a "''s2''" "''s2''"]
    by simp
qed

text \<open>
  With the threshold 150 the first segment keeps its record of time 200 and is marked; the
  second keeps its only record and is not.
\<close>

theorem drop_old_contract_witness:
  "distinct (map fst (fcd_by_segment view_drained))
   \<and> observations view_drained ''s1'' = [fcd_a, fcd_b, fcd_c]
   \<and> observations (drop_old view_drained 150) ''s1'' = [fcd_c]
   \<and> observations (drop_old view_drained 150) ''s2'' = [fcd_m]
   \<and> modified_segments view_drained = []
   \<and> modified_segments (drop_old view_drained 150) = [''s1'']"
proof -
  have h: "distinct (map fst (fcd_by_segment view_drained))"
    by (simp add: view_drained_eq)
  have o: "observations view_drained ''s1'' = [fcd_a, fcd_b, fcd_c]"
    "modified_segments view_drained = []"
    by (simp_all add: view_drained_eq observations_def)
  show ?thesis
    using h o drop_old_contract [OF h, of 150 "''s1''"] drop_old_contract [OF h, of 150 "''s2''"]
    by (simp add: drop_old_view_drained observations_def)
qed

text \<open>
  A segment the index has never seen, and one it has.
\<close>

theorem get_segment_speed_leaves_index_witness:
  "''s9'' \<notin> fst ` set (fcd_by_segment view_jam)
   \<and> fcd_by_segment (snd (get_segment_speed view_jam ''s9''))
       = fcd_by_segment view_jam @ [(''s9'', [])]
   \<and> observations (snd (get_segment_speed view_jam ''s9'')) ''s9'' = observations view_jam ''s9''
   \<and> observations view_jam ''s9'' = []
   \<and> fcd_by_segment (snd (get_segment_speed view_jam ''s1'')) = fcd_by_segment view_jam"
proof -
  have h: "''s9'' \<notin> fst ` set (fcd_by_segment view_jam)" "''s1'' \<in> fst ` set (fcd_by_segment view_jam)"
    "observations view_jam ''s9'' = []"
    by (simp_all add: view_jam_eq observations_def)
  show ?thesis
    using h get_segment_speed_leaves_index [of view_jam "''s9''" "''s9''"]
      get_segment_speed_leaves_index [of view_jam "''s1''" "''s9''"]
    by simp
qed

section \<open>The level of service in double precision\<close>


subsection \<open>Rounding to the nearest integer\<close>

lemma rne_of_int: "rne (of_int n) = n"
  by (simp add: rne_def)

lemma rne_mono:
  assumes "y \<le> z"
  shows "rne y \<le> rne z"
proof (cases "\<lfloor>y\<rfloor> = \<lfloor>z\<rfloor>")
  case True
  with assms have "y - of_int \<lfloor>y\<rfloor> \<le> z - of_int \<lfloor>z\<rfloor>" by simp
  with True show ?thesis
    by (auto simp: rne_def Let_def)
next
  case False
  with assms have "\<lfloor>y\<rfloor> + 1 \<le> \<lfloor>z\<rfloor>"
    using floor_mono [OF assms] by linarith
  moreover have "rne y \<le> \<lfloor>y\<rfloor> + 1" by (auto simp: rne_def Let_def)
  moreover have "\<lfloor>z\<rfloor> \<le> rne z" by (auto simp: rne_def Let_def)
  ultimately show ?thesis by linarith
qed

lemma rne_minus: "rne (- y) = - rne y"
proof (cases "y = of_int \<lfloor>y\<rfloor>")
  case True
  then obtain n where "y = of_int n" ..
  then show ?thesis
    using rne_of_int [of n] rne_of_int [of "- n"] by simp
next
  case False
  then have lt: "of_int \<lfloor>y\<rfloor> < y"
    using of_int_floor_le [of y] by linarith
  have fl: "\<lfloor>- y\<rfloor> = - \<lfloor>y\<rfloor> - 1"
  proof (rule floor_unique)
    show "of_int (- \<lfloor>y\<rfloor> - 1) \<le> - y"
      using floor_correct [of y] by linarith
    show "- y < of_int (- \<lfloor>y\<rfloor> - 1) + 1"
      using lt by linarith
  qed
  show ?thesis
    by (auto simp: rne_def Let_def fl)
qed


subsection \<open>Rounding to the nearest double\<close>

lemma powr_power_int: "2 powr (of_int k) = (power_int 2 k :: real)"
  by (simp add: powr_int power_int_def inverse_eq_divide power_one_over)

lemma exponent_bounds:
  assumes "x \<noteq> 0"
  shows "power_int 2 (exponent x) \<le> \<bar>x\<bar>" and "\<bar>x\<bar> < power_int 2 (exponent x + 1)"
proof -
  from assms have pos: "0 < \<bar>x\<bar>" by simp
  have "2 powr (of_int (exponent x)) \<le> \<bar>x\<bar> \<and> \<bar>x\<bar> < 2 powr (of_int (exponent x) + 1)"
    using floor_log_eq_powr_iff [OF pos, of 2 "exponent x"] by (simp add: exponent_def)
  moreover have "2 powr (of_int (exponent x) + 1) = (2::real) powr (of_int (exponent x + 1))"
    by simp
  ultimately show "power_int 2 (exponent x) \<le> \<bar>x\<bar>" and "\<bar>x\<bar> < power_int 2 (exponent x + 1)"
    by (simp_all only: powr_power_int)
qed

lemma exponent_eqI:
  assumes "power_int 2 e \<le> \<bar>x\<bar>" and "\<bar>x\<bar> < power_int 2 (e + 1)"
  shows "exponent x = e"
proof -
  have "0 < (power_int 2 e :: real)" by simp
  with assms(1) have pos: "0 < \<bar>x\<bar>" by linarith
  have "2 powr (of_int e) \<le> \<bar>x\<bar> \<and> \<bar>x\<bar> < 2 powr (of_int (e + 1))"
    using assms by (simp only: powr_power_int)
  then have "2 powr (of_int e) \<le> \<bar>x\<bar> \<and> \<bar>x\<bar> < 2 powr (of_int e + 1)"
    by simp
  then show ?thesis
    using floor_log_eq_powr_iff [OF pos, of 2 e] by (simp add: exponent_def)
qed

lemma exponent_mono:
  assumes "x \<noteq> 0" and "\<bar>x\<bar> \<le> \<bar>y\<bar>"
  shows "exponent x \<le> exponent y"
proof -
  from assms have "0 < \<bar>x\<bar>" "0 < \<bar>y\<bar>" by auto
  with assms(2) have "log 2 \<bar>x\<bar> \<le> log 2 \<bar>y\<bar>" by simp
  then show ?thesis unfolding exponent_def by (rule floor_mono)
qed

lemma exponent_minus: "exponent (- x) = exponent x"
  by (simp add: exponent_def)

lemma ulp_exp_minus: "ulp_exp (- x) = ulp_exp x"
  by (simp add: ulp_exp_def exponent_minus)

lemma ulp_exp_mono: "x \<noteq> 0 \<Longrightarrow> \<bar>x\<bar> \<le> \<bar>y\<bar> \<Longrightarrow> ulp_exp x \<le> ulp_exp y"
  using exponent_mono [of x y] by (simp add: ulp_exp_def)

lemma ulp_exp_upper:
  assumes "x \<noteq> 0"
  shows "\<bar>x\<bar> < power_int 2 (ulp_exp x + 53)"
proof -
  have "exponent x + 1 \<le> ulp_exp x + 53" by (simp add: ulp_exp_def)
  then have "(power_int 2 (exponent x + 1) :: real) \<le> power_int 2 (ulp_exp x + 53)"
    by (intro power_int_increasing) simp_all
  with exponent_bounds(2) [OF assms] show ?thesis by linarith
qed

lemma ulp_exp_lower:
  assumes "x \<noteq> 0" and "- 1074 < ulp_exp x"
  shows "power_int 2 (ulp_exp x + 52) \<le> \<bar>x\<bar>"
proof -
  from assms(2) have "ulp_exp x + 52 = exponent x" by (simp add: ulp_exp_def max_def split: if_splits)
  with exponent_bounds(1) [OF assms(1)] show ?thesis by simp
qed

lemma ulp_exp_eqI:
  assumes "power_int 2 (k + 52) \<le> \<bar>x\<bar>" and "\<bar>x\<bar> < power_int 2 (k + 53)" and "- 1074 \<le> k"
  shows "ulp_exp x = k"
proof -
  have "exponent x = k + 52"
    using assms(1,2) by (intro exponent_eqI) (simp_all add: add.assoc)
  with assms(3) show ?thesis by (simp add: ulp_exp_def)
qed

lemma rnd_minus: "rnd (- x) = - rnd x"
  by (simp add: rnd_def ulp_exp_minus rne_minus)

lemma rnd_pos:
  assumes "0 < x"
  shows "rnd x = of_int (rne (x / power_int 2 (ulp_exp x))) * power_int 2 (ulp_exp x)"
  using assms by (simp add: rnd_def)

lemma rnd_nonneg:
  assumes "0 \<le> x"
  shows "0 \<le> rnd x"
proof (cases "x = 0")
  case True
  then show ?thesis by (simp add: rnd_def)
next
  case False
  have "0 \<le> x / power_int 2 (ulp_exp x)" using assms by simp
  then have "rne 0 \<le> rne (x / power_int 2 (ulp_exp x))" by (rule rne_mono)
  then have "0 \<le> rne (x / power_int 2 (ulp_exp x))"
    using rne_of_int [of 0] by simp
  with False show ?thesis by (simp add: rnd_def)
qed

lemma rnd_mono_pos:
  assumes "0 < x" and "x \<le> y"
  shows "rnd x \<le> rnd y"
proof -
  let ?kx = "ulp_exp x" and ?ky = "ulp_exp y"
  from assms have y: "0 < y" by linarith
  have k: "?kx \<le> ?ky" using assms y by (intro ulp_exp_mono) simp_all
  show ?thesis
  proof (cases "?kx = ?ky")
    case True
    have "x / power_int 2 ?ky \<le> y / power_int 2 ?ky"
      using assms(2) by (simp add: divide_right_mono)
    then have "rne (x / power_int 2 ?ky) \<le> rne (y / power_int 2 ?ky)" by (rule rne_mono)
    then have "of_int (rne (x / power_int 2 ?ky)) * (power_int 2 ?ky :: real)
        \<le> of_int (rne (y / power_int 2 ?ky)) * power_int 2 ?ky"
      by (intro mult_right_mono) simp_all
    then show ?thesis using assms y True by (simp add: rnd_def)
  next
    case False
    with k have lt: "?kx + 1 \<le> ?ky" by simp
    then have ky: "- 1074 < ?ky" by (simp add: ulp_exp_def)
    have "x < power_int 2 (?kx + 53)" using ulp_exp_upper [of x] assms(1) by simp
    then have "x / power_int 2 ?kx \<le> power_int 2 53"
      by (simp add: power_int_add field_simps)
    then have "x / power_int 2 ?kx \<le> of_int (2 ^ 53)" by simp
    then have "rne (x / power_int 2 ?kx) \<le> rne (of_int (2 ^ 53))" by (rule rne_mono)
    then have "rne (x / power_int 2 ?kx) \<le> 2 ^ 53" by (simp only: rne_of_int)
    then have "of_int (rne (x / power_int 2 ?kx)) \<le> (2 ^ 53 :: real)"
      by (metis of_int_le_iff of_int_numeral of_int_power)
    then have "of_int (rne (x / power_int 2 ?kx)) * (power_int 2 ?kx :: real)
        \<le> 2 ^ 53 * power_int 2 ?kx"
      by (intro mult_right_mono) simp_all
    also have "\<dots> = power_int 2 (?kx + 53)" by (simp add: power_int_add)
    also have "\<dots> \<le> power_int 2 (?ky + 52)"
      using lt by (intro power_int_increasing) simp_all
    finally have a: "rnd x \<le> power_int 2 (?ky + 52)" using assms(1) by (simp add: rnd_def)
    have "power_int 2 (?ky + 52) \<le> y" using ulp_exp_lower [of y] y ky by simp
    then have "of_int (2 ^ 52) \<le> y / power_int 2 ?ky"
      by (simp add: power_int_add field_simps)
    then have "rne (of_int (2 ^ 52)) \<le> rne (y / power_int 2 ?ky)" by (rule rne_mono)
    then have "2 ^ 52 \<le> rne (y / power_int 2 ?ky)" by (simp only: rne_of_int)
    then have "(2 ^ 52 :: real) \<le> of_int (rne (y / power_int 2 ?ky))"
      by (metis of_int_le_iff of_int_numeral of_int_power)
    then have "2 ^ 52 * (power_int 2 ?ky :: real)
        \<le> of_int (rne (y / power_int 2 ?ky)) * power_int 2 ?ky"
      by (intro mult_right_mono) simp_all
    moreover have "2 ^ 52 * (power_int 2 ?ky :: real) = power_int 2 (?ky + 52)"
      by (simp add: power_int_add)
    ultimately have b: "power_int 2 (?ky + 52) \<le> rnd y"
      unfolding rnd_pos [OF y] by linarith
    from a b show ?thesis by linarith
  qed
qed

text \<open>
  Rounding is monotone.
\<close>

lemma rnd_mono:
  assumes "x \<le> y"
  shows "rnd x \<le> rnd y"
proof -
  consider "0 < x" | "x \<le> 0" "0 \<le> y" | "y < 0" by linarith
  then show ?thesis
  proof cases
    case 1
    then show ?thesis using assms by (rule rnd_mono_pos)
  next
    case 2
    have "rnd x = - rnd (- x)" by (simp add: rnd_minus)
    moreover have "0 \<le> rnd (- x)" using 2(1) by (intro rnd_nonneg) simp
    moreover have "0 \<le> rnd y" using 2(2) by (rule rnd_nonneg)
    ultimately show ?thesis by linarith
  next
    case 3
    then have "rnd (- y) \<le> rnd (- x)" using assms by (intro rnd_mono_pos) simp_all
    then show ?thesis by (simp add: rnd_minus)
  qed
qed

text \<open>
  A number with a significand of at most 53 bits and an exponent in range is a double, and
  rounding leaves it as it is.
\<close>

lemma rnd_representable:
  assumes "\<bar>m\<bar> < 2 ^ 53" and "- 1074 \<le> k"
  shows "rnd (of_int m * power_int 2 k) = of_int m * power_int 2 k"
proof (cases "m = 0")
  case True
  then show ?thesis by (simp add: rnd_def)
next
  case False
  let ?x = "of_int m * power_int 2 k :: real"
  from False have nz: "?x \<noteq> 0" by simp
  have "\<bar>?x\<bar> = of_int \<bar>m\<bar> * power_int 2 k" by (simp add: abs_mult)
  also have "\<dots> < 2 ^ 53 * power_int 2 k"
  proof (rule mult_strict_right_mono)
    show "real_of_int \<bar>m\<bar> < 2 ^ 53"
      using assms(1) by (metis of_int_less_iff of_int_numeral of_int_power)
  qed simp
  also have "\<dots> = power_int 2 (k + 53)" by (simp add: power_int_add)
  finally have up: "\<bar>?x\<bar> < power_int 2 (k + 53)" .
  have "exponent ?x < k + 53"
  proof (rule ccontr)
    assume "\<not> exponent ?x < k + 53"
    then have "(power_int 2 (k + 53) :: real) \<le> power_int 2 (exponent ?x)"
      by (intro power_int_increasing) simp_all
    with exponent_bounds(1) [OF nz] up show False by linarith
  qed
  with assms(2) have le: "ulp_exp ?x \<le> k" by (simp add: ulp_exp_def)
  define u where "u = ulp_exp ?x"
  define j where "j = nat (k - u)"
  have "k = u + int j" using le by (simp add: j_def u_def)
  then have pk: "(power_int 2 k :: real) = power_int 2 u * 2 ^ j"
    by (simp add: power_int_add)
  have "?x / power_int 2 u = of_int (m * 2 ^ j)"
    by (simp add: pk)
  then have "rne (?x / power_int 2 u) = m * 2 ^ j"
    by (simp only: rne_of_int)
  then have "rnd ?x = of_int (m * 2 ^ j) * power_int 2 u"
    using nz by (simp add: rnd_def u_def)
  also have "\<dots> = of_int m * power_int 2 k"
    by (simp add: pk)
  finally show ?thesis .
qed

lemma rnd_of_int:
  assumes "\<bar>m\<bar> < 2 ^ 53"
  shows "rnd (of_int m) = of_int m"
  using rnd_representable [OF assms, of 0] by simp


subsection \<open>Evaluating the rounding\<close>

text \<open>
  The rounding of a number whose binade is known, for evaluation.
\<close>

lemma rnd_eval:
  assumes "2 ^ 52 \<le> \<bar>x\<bar> * 2 ^ j" and "\<bar>x\<bar> * 2 ^ j < 2 ^ 53" and "j \<le> 1074"
  shows "rnd x = of_int (rne (x * 2 ^ j)) / 2 ^ j"
proof -
  have p: "(power_int 2 (- int j) :: real) = 1 / 2 ^ j"
    by (simp add: power_int_minus inverse_eq_divide)
  have "(power_int 2 (- int j + 52) :: real) = power_int 2 (- int j) * power_int 2 52"
    by (rule power_int_add) simp
  then have a: "(power_int 2 (- int j + 52) :: real) = 2 ^ 52 / 2 ^ j"
    by (simp only: p) simp
  have "(power_int 2 (- int j + 53) :: real) = power_int 2 (- int j) * power_int 2 53"
    by (rule power_int_add) simp
  then have b: "(power_int 2 (- int j + 53) :: real) = 2 ^ 53 / 2 ^ j"
    by (simp only: p) simp
  have "ulp_exp x = - int j"
  proof (rule ulp_exp_eqI)
    show "power_int 2 (- int j + 52) \<le> \<bar>x\<bar>"
      unfolding a using assms(1) by (simp add: field_simps)
    show "\<bar>x\<bar> < power_int 2 (- int j + 53)"
      unfolding b using assms(2) by (simp add: field_simps)
    show "- 1074 \<le> - int j" using assms(3) by simp
  qed
  moreover have "x \<noteq> 0" using assms(1) by auto
  ultimately show ?thesis
    by (simp add: rnd_def p)
qed

lemma rnd_one_fifth: "rnd (1 / 5) = 3602879701896397 / 2 ^ 54"
  by (subst rnd_eval [where j = 55]) (simp_all add: rne_def)

lemma rnd_four_fifths: "rnd (4 / 5) = 3602879701896397 / 2 ^ 52"
  by (subst rnd_eval [where j = 53]) (simp_all add: rne_def)

lemma rnd_mile: "rnd 1609.344 = 1769492441091539 / 2 ^ 40"
  by (subst rnd_eval [where j = 42]) (simp_all add: rne_def)

lemma rnd_top_band_product: "rnd (25 * (3602879701896397 / 2 ^ 54)) = 5"
  by (subst rnd_eval [where j = 50]) (simp_all add: rne_def)

lemma rnd_top_band_sum: "rnd (3602879701896397 / 2 ^ 52 + 3602879701896397 / 2 ^ 54) = 1"
  by (subst rnd_eval [where j = 52]) (simp_all add: rne_def)

lemma rnd_tie: "rnd (18014398509481983 / 18014398509481984) = 1"
  by (subst rnd_eval [where j = 53]) (simp_all add: rne_def)


subsection \<open>The bands in double precision\<close>

lemma rnd_0: "rnd 0 = 0"
  by (simp add: rnd_def)

lemma rnd_1: "rnd 1 = 1"
  using rnd_of_int [of 1] by simp

lemma rnd_numeral: "numeral w < (2 ^ 53 :: int) \<Longrightarrow> rnd (numeral w) = numeral w"
  using rnd_of_int [of "numeral w"] by simp

lemma rnd_quarter: "rnd (1 / 4) = 1 / 4"
  using rnd_representable [of 1 "- 2"] by simp

lemma rnd_three_quarters: "rnd (3 / 4) = 3 / 4"
  using rnd_representable [of 3 "- 2"] by simp

lemma rnd_le: "x \<le> b \<Longrightarrow> rnd b = b \<Longrightarrow> rnd x \<le> b"
  using rnd_mono [of x b] by simp

lemma fsum_nonneg_aux:
  "0 \<le> acc \<Longrightarrow> \<forall>x \<in> set xs. 0 \<le> x \<Longrightarrow> 0 \<le> foldl (\<lambda>acc x. rnd (acc + x)) acc xs"
proof (induction xs arbitrary: acc)
  case Nil
  then show ?case by simp
next
  case (Cons x xs)
  then have "0 \<le> rnd (acc + x)" by (intro rnd_nonneg) simp
  with Cons show ?case by simp
qed

lemma fsum_nonneg: "\<forall>x \<in> set xs. 0 \<le> x \<Longrightarrow> 0 \<le> fsum xs"
  unfolding fsum_def by (rule fsum_nonneg_aux) simp_all

lemma band_bound:
  assumes "low \<le> n" and "n < high" and "high - low = d" and "rnd d = d" and "0 < d"
    and "rnd (d / 4) = d / 4" and "0 \<le> m" and "m \<le> 3 / 4"
  shows "0 \<le> rnd (m + rnd (rnd (rnd (n - low) * rnd 0.2) / (high - low)))"
    and "rnd (m + rnd (rnd (rnd (n - low) * rnd 0.2) / (high - low))) \<le> 1"
proof -
  let ?a = "rnd (n - low)"
  let ?c02 = "rnd 0.2"
  let ?b = "rnd (?a * ?c02)"
  let ?c = "rnd (?b / (high - low))"
  have a0: "0 \<le> ?a" using assms(1) by (intro rnd_nonneg) simp
  have a1: "?a \<le> d" using assms(2,3,4) by (intro rnd_le) simp_all
  have c0: "0 \<le> ?c02" by (intro rnd_nonneg) simp
  have c1: "?c02 \<le> 1 / 4" by (intro rnd_le rnd_quarter) simp
  have b0: "0 \<le> ?b" using a0 c0 by (intro rnd_nonneg) simp
  have "?a * ?c02 \<le> d * (1 / 4)" using a0 a1 c0 c1 assms(5) by (intro mult_mono) simp_all
  then have b1: "?b \<le> d / 4" using assms(6) by (intro rnd_le) simp_all
  have q0: "0 \<le> ?c" using b0 assms(3,5) by (intro rnd_nonneg) simp
  have "?b / d \<le> 1 / 4" using b1 assms(5) by (simp add: field_simps)
  then have q1: "?c \<le> 1 / 4" using assms(3) by (intro rnd_le rnd_quarter) simp_all
  show "0 \<le> rnd (m + ?c)" using q0 assms(7) by (intro rnd_nonneg) simp
  show "rnd (m + ?c) \<le> 1" using q1 assms(8) by (intro rnd_le rnd_1) simp
qed

lemma top_band_bound:
  assumes "42 \<le> n" and "n < 67"
  shows "0 \<le> rnd (rnd 0.8 + rnd (rnd (rnd (n - 42) * rnd 0.2) / (67 - 42)))"
    and "rnd (rnd 0.8 + rnd (rnd (rnd (n - 42) * rnd 0.2) / (67 - 42))) \<le> 1"
proof -
  let ?a = "rnd (n - 42)"
  let ?c02 = "rnd 0.2"
  let ?b = "rnd (?a * ?c02)"
  let ?c = "rnd (?b / (67 - 42))"
  have c02: "?c02 = 3602879701896397 / 2 ^ 54" using rnd_one_fifth by simp
  have c08: "rnd 0.8 = 3602879701896397 / 2 ^ 52" using rnd_four_fifths by simp
  have a0: "0 \<le> ?a" using assms(1) by (intro rnd_nonneg) simp
  have a1: "?a \<le> 25" using assms(2) by (intro rnd_le rnd_numeral) simp_all
  have c0: "0 \<le> ?c02" by (intro rnd_nonneg) simp
  have "0 \<le> ?a * ?c02" using a0 c0 by (rule mult_nonneg_nonneg)
  then have b0: "0 \<le> ?b" by (rule rnd_nonneg)
  have "?a * ?c02 \<le> 25 * (3602879701896397 / 2 ^ 54)"
    unfolding c02 using a1 by (intro mult_right_mono) simp_all
  then have "?b \<le> rnd (25 * (3602879701896397 / 2 ^ 54))" by (rule rnd_mono)
  then have b1: "?b \<le> 5" by (simp only: rnd_top_band_product)
  have q0: "0 \<le> ?c" using b0 by (intro rnd_nonneg) simp
  have "?b / (67 - 42) \<le> 1 / 5" using b1 by simp
  then have "?c \<le> rnd (1 / 5)" by (rule rnd_mono)
  then have q1: "?c \<le> 3602879701896397 / 2 ^ 54" by (simp only: rnd_one_fifth)
  show "0 \<le> rnd (rnd 0.8 + ?c)" using q0 unfolding c08 by (intro rnd_nonneg) simp
  have "rnd 0.8 + ?c \<le> 3602879701896397 / 2 ^ 52 + 3602879701896397 / 2 ^ 54"
    unfolding c08 using q1 by simp
  then have "rnd (rnd 0.8 + ?c) \<le> rnd (3602879701896397 / 2 ^ 52 + 3602879701896397 / 2 ^ 54)"
    by (rule rnd_mono)
  then show "rnd (rnd 0.8 + ?c) \<le> 1" by (simp only: rnd_top_band_sum)
qed


subsection \<open>The range of the score in double precision\<close>

lemma rnd_consts:
  "0 \<le> rnd 0.2" "rnd 0.2 \<le> 3 / 4" "0 \<le> rnd 0.4" "rnd 0.4 \<le> 3 / 4"
  "0 \<le> rnd 0.6" "rnd 0.6 \<le> 3 / 4"
  by (intro rnd_nonneg rnd_le rnd_three_quarters; simp)+

lemma los_loop_double_range:
  assumes "0 \<le> n" and "los_loop_double ranges_double n = Fin y"
  shows "0 \<le> y \<and> y \<le> 1"
proof -
  consider "n < 12" | "12 \<le> n" "n < 20" | "20 \<le> n" "n < 30" | "30 \<le> n" "n < 42"
    | "42 \<le> n" "n < 67" | "67 \<le> n"
    by linarith
  then show ?thesis
  proof cases
    case 1
    with assms(2) have y: "y = rnd (rnd 0.0 + rnd (rnd (rnd (n - 0) * rnd 0.2) / (12 - 0)))"
      by (simp add: ranges_double_def)
    have "rnd 0.0 = 0" by (simp add: rnd_0)
    then show ?thesis
      unfolding y using band_bound [of 0 n 12 12 "rnd 0.0"] assms(1) 1
      by (simp add: rnd_numeral rnd_representable [of 3 0, simplified])
  next
    case 2
    with assms(2) have y: "y = rnd (rnd 0.2 + rnd (rnd (rnd (n - 12) * rnd 0.2) / (20 - 12)))"
      by (simp add: ranges_double_def)
    show ?thesis
      unfolding y using band_bound [of 12 n 20 8 "rnd 0.2"] 2 rnd_consts
      by (simp add: rnd_numeral)
  next
    case 3
    with assms(2) have y: "y = rnd (rnd 0.4 + rnd (rnd (rnd (n - 20) * rnd 0.2) / (30 - 20)))"
      by (simp add: ranges_double_def)
    have "rnd (10 / 4) = 10 / 4" using rnd_representable [of 5 "- 1"] by simp
    then show ?thesis
      unfolding y using band_bound [of 20 n 30 10 "rnd 0.4"] 3 rnd_consts
      by (simp add: rnd_numeral)
  next
    case 4
    with assms(2) have y: "y = rnd (rnd 0.6 + rnd (rnd (rnd (n - 30) * rnd 0.2) / (42 - 30)))"
      by (simp add: ranges_double_def)
    show ?thesis
      unfolding y using band_bound [of 30 n 42 12 "rnd 0.6"] 4 rnd_consts
      by (simp add: rnd_numeral)
  next
    case 5
    with assms(2) have y: "y = rnd (rnd 0.8 + rnd (rnd (rnd (n - 42) * rnd 0.2) / (67 - 42)))"
      by (simp add: ranges_double_def)
    show ?thesis
      unfolding y using top_band_bound [OF 5] by simp
  next
    case 6
    with assms(2) show ?thesis by (simp add: ranges_double_def)
  qed
qed

lemma density_double_nonneg:
  assumes "0 \<le> total_pcu" and "1 \<le> lanes seg"
    and "n_vehicles_per_mile_double total_pcu seg offset = Inr n"
  shows "0 \<le> n"
proof -
  have mile: "0 \<le> mile_double" unfolding mile_double_def by (intro rnd_nonneg) simp
  have "0 \<le> total_pcu * mile_double"
    using assms(1) mile by (rule mult_nonneg_nonneg)
  then have num: "0 \<le> rnd (total_pcu * mile_double)" by (rule rnd_nonneg)
  let ?rest = "rnd (seg_length seg - offset)"
  show ?thesis
  proof (cases "?rest < 200")
    case True
    with assms(3) have "n = rnd (rnd (total_pcu * mile_double) / 200)"
      by (simp add: n_vehicles_per_mile_double_def ending_length_def)
    with num show ?thesis by (simp add: rnd_nonneg)
  next
    case False
    with assms(3) have n: "n = rnd (rnd (total_pcu * mile_double) / rnd (?rest * rnd (of_int (lanes seg))))"
      by (simp add: n_vehicles_per_mile_double_def ending_length_def Let_def split: if_splits)
    have "0 \<le> rnd (of_int (lanes seg))" using assms(2) by (intro rnd_nonneg) simp
    with False have "0 \<le> ?rest * rnd (of_int (lanes seg))" by simp
    then have "0 \<le> rnd (?rest * rnd (of_int (lanes seg)))" by (rule rnd_nonneg)
    with num have "0 \<le> rnd (total_pcu * mile_double) / rnd (?rest * rnd (of_int (lanes seg)))"
      by (rule divide_nonneg_nonneg)
    then show ?thesis unfolding n by (rule rnd_nonneg)
  qed
qed

lemma density_double_no_error:
  assumes "1 \<le> lanes seg"
  shows "n_vehicles_per_mile_double total_pcu seg offset \<noteq> Inl e"
proof -
  let ?rest = "rnd (seg_length seg - offset)"
  have "rnd 1 \<le> rnd (of_int (lanes seg))" using assms by (intro rnd_mono) simp
  then have l: "1 \<le> rnd (of_int (lanes seg))" by (simp add: rnd_1)
  have "rnd (?rest * rnd (of_int (lanes seg))) \<noteq> 0" if "\<not> ?rest < 200"
  proof -
    from that l have "200 * 1 \<le> ?rest * rnd (of_int (lanes seg))"
      by (intro mult_mono) simp_all
    then have "rnd 200 \<le> rnd (?rest * rnd (of_int (lanes seg)))"
      by (intro rnd_mono) simp
    then show ?thesis by (simp add: rnd_numeral)
  qed
  then show ?thesis
    by (auto simp: n_vehicles_per_mile_double_def ending_length_def Let_def)
qed

lemma density_model_double_range:
  assumes "0 \<le> total_pcu" and "1 \<le> lanes seg"
    and "density_model_double total_pcu seg offset = Inr (Fin x)"
  shows "0 \<le> x \<and> x \<le> 1"
proof -
  from assms(3) obtain n where n: "n_vehicles_per_mile_double total_pcu seg offset = Inr n"
    and r: "reverse_los_double (los_loop_double ranges_double n) = Fin x"
    by (auto simp: density_model_double_def split: sum.splits)
  from r obtain y where y: "los_loop_double ranges_double n = Fin y" and x: "x = rnd (1 - y)"
    by (auto simp: reverse_los_double_def split: pyfloat.splits)
  from density_double_nonneg [OF assms(1,2) n] y have "0 \<le> y \<and> y \<le> 1"
    by (rule los_loop_double_range)
  then have "0 \<le> rnd (1 - y)" "rnd (1 - y) \<le> 1"
    by (intro rnd_nonneg rnd_le rnd_1; simp)+
  with x show ?thesis by simp
qed

lemma load_ahead_double_pcu_nonneg:
  assumes "load_ahead_double classes g dt sid tolerance vid offset = Inr (total_pcu, occ, va)"
    and "\<forall>p \<in> ran classes. 0 \<le> pcu p"
  shows "0 \<le> total_pcu"
proof -
  from assms(1) have loop: "load_ahead_loop classes dt (tol_of tolerance) vid offset
        (observations g sid) [] = Inr va"
    and s: "total_pcu = fsum (map (\<lambda>(v, p). pcu p) va)"
    by (auto simp: load_ahead_double_def tol_of_def Let_def split: sum.splits)
  have "snd ` set va \<subseteq> ran classes"
    using load_ahead_loop_params [OF loop] by simp
  with assms(2) have "\<forall>x \<in> set (map (\<lambda>(v, p). pcu p) va). 0 \<le> x" by force
  then show ?thesis unfolding s by (rule fsum_nonneg)
qed

text \<open>
  Claim C10, as the code's arithmetic allows it. When every class of the table has a
  non-negative PCU value and the segment has at least one lane, every finite value the
  function returns in double precision is at least 0 and at most 1: the raw value of a
  band lies between 0 and 1, both included, and so does the reversed score.
\<close>

theorem finite_score_range_double:
  assumes "\<forall>p \<in> ran classes. 0 \<le> pcu p" and "1 \<le> lanes seg"
    and "level_of_service_in_front_of_vehicle_double classes g dt seg vid offset tolerance limit
           = Inr (Fin x)"
  shows "0 \<le> x \<and> x \<le> 1"
proof (cases "load_ahead_double classes g dt (seg_id seg) tolerance vid offset")
  case (Inl e)
  with assms(3) show ?thesis by (simp add: level_of_service_in_front_of_vehicle_double_def)
next
  case (Inr r)
  then obtain total_pcu occ va where
    la: "load_ahead_double classes g dt (seg_id seg) tolerance vid offset = Inr (total_pcu, occ, va)"
    by (cases r) auto
  have pcu: "0 \<le> total_pcu" using la assms(1) by (rule load_ahead_double_pcu_nonneg)
  from assms(3) have "density_model_double total_pcu seg offset = Inr (Fin x)"
    by (simp add: level_of_service_in_front_of_vehicle_double_def la Let_def split: if_splits)
  with pcu assms(2) show ?thesis by (rule density_model_double_range)
qed


subsection \<open>A finite score of zero\<close>

lemma observations_init: "observations init s = []"
  by (simp add: observations_def init_def)

lemma observations_view_edge:
  "observations view_edge ''s3'' =
     [car_on_edge 1, car_on_edge 2, car_on_edge 3, car_on_edge 4, car_on_edge 5,
      car_on_edge 6, car_on_edge 7, car_on_edge 8, car_on_edge 9, car_on_edge 10]"
  by (simp add: view_edge_def add_observations observations_init car_on_edge_def seg_edge_def)

lemma load_ahead_double_view_edge:
  "load_ahead_double classes_example view_edge 100 ''s3'' None (- 1) 0 =
     Inr (10, 70,
       [(1, car_params), (2, car_params), (3, car_params), (4, car_params), (5, car_params),
        (6, car_params), (7, car_params), (8, car_params), (9, car_params), (10, car_params)])"
proof -
  have loop: "load_ahead_loop classes_example 100 0 (- 1) 0 (observations view_edge ''s3'') [] =
     Inr [(1, car_params), (2, car_params), (3, car_params), (4, car_params), (5, car_params),
        (6, car_params), (7, car_params), (8, car_params), (9, car_params), (10, car_params)]"
    by (simp add: observations_view_edge car_on_edge_def classes_example_def)
  show ?thesis
    by (simp add: load_ahead_double_def loop fsum_def car_params_def rnd_numeral rnd_1)
qed

lemma density_view_edge:
  "n_vehicles_per_mile_double 10 seg_edge 0 = Inr (4714705859903487 / 2 ^ 46)"
proof -
  have rest: "rnd (8451307181332725 / 2 ^ 45) = 8451307181332725 / 2 ^ 45"
    by (subst rnd_eval [where j = 45]) (simp_all add: rne_def)
  have num: "rnd (10 * (1769492441091539 / 2 ^ 40)) = 8847462205457695 / 2 ^ 39"
    by (subst rnd_eval [where j = 39]) (simp_all add: rne_def)
  have quot: "rnd (8847462205457695 / 2 ^ 39 / (8451307181332725 / 2 ^ 45))
                = 4714705859903487 / 2 ^ 46"
    by (subst rnd_eval [where j = 46]) (simp_all add: rne_def)
  have a: "rnd (seg_length seg_edge - 0) = 8451307181332725 / 2 ^ 45"
    using rest by (simp add: seg_edge_def)
  have b: "rnd (8451307181332725 / 2 ^ 45 * rnd (of_int (lanes seg_edge))) = 8451307181332725 / 2 ^ 45"
    using rest by (simp add: seg_edge_def rnd_1)
  have c: "rnd (10 * mile_double) = 8847462205457695 / 2 ^ 39"
    unfolding mile_double_def rnd_mile by (rule num)
  show ?thesis
    unfolding n_vehicles_per_mile_double_def Let_def a b c quot
    by (simp add: ending_length_def)
qed

lemma top_band_rounds_to_one:
  "los_loop_double ranges_double (4714705859903487 / 2 ^ 46) = Fin 1"
proof -
  have a: "rnd (4714705859903487 / 2 ^ 46 - 42) = 1759218604441599 / 2 ^ 46"
    by (subst rnd_eval [where j = 48]) (simp_all add: rne_def)
  have b: "rnd (1759218604441599 / 2 ^ 46 * (3602879701896397 / 2 ^ 54)) = 5629499534213117 / 2 ^ 50"
    by (subst rnd_eval [where j = 50]) (simp_all add: rne_def)
  have c: "rnd (5629499534213117 / 2 ^ 50 / (67 - 42)) = 3602879701896395 / 2 ^ 54"
    by (subst rnd_eval [where j = 55]) (simp_all add: rne_def)
  have d: "rnd (3602879701896397 / 2 ^ 52 + 3602879701896395 / 2 ^ 54) = 1"
    by (subst rnd_eval [where j = 53]) (simp_all add: rne_def)
  have c02: "rnd 0.2 = 3602879701896397 / 2 ^ 54" using rnd_one_fifth by simp
  have c08: "rnd 0.8 = 3602879701896397 / 2 ^ 52" using rnd_four_fifths by simp
  have "los_loop_double ranges_double (4714705859903487 / 2 ^ 46) =
      Fin (rnd (rnd 0.8 + rnd (rnd (rnd (4714705859903487 / 2 ^ 46 - 42) * rnd 0.2) / (67 - 42))))"
    by (simp add: ranges_double_def)
  also have "\<dots> = Fin 1"
    unfolding a c02 b c c08 d ..
  finally show ?thesis .
qed

text \<open>
  The bound of claim C10 from below is not strict. Ten cars of one passenger car unit each
  ahead on one lane of 240.20059701492542 metres give the density \<open>67 - 2 ^ - 46\<close>, the
  largest double below 67. It lies in the last band; its raw value
  \<open>0.8 + (n - 42) * 0.2 / 25\<close> rounds to 1, and the function returns the finite score 0.
\<close>

theorem finite_score_zero_counterexample:
  "ran classes_example = {car_params} \<and> 0 \<le> pcu car_params \<and> 1 \<le> lanes seg_edge
   \<and> rnd (seg_length seg_edge) = seg_length seg_edge
   \<and> level_of_service_in_front_of_vehicle_double classes_example view_edge 100 seg_edge (- 1) 0 None False
        = Inr (Fin 0)
   \<and> \<not> (0 :: real) < 0"
proof -
  have rest: "rnd (8451307181332725 / 2 ^ 45) = 8451307181332725 / 2 ^ 45"
    by (subst rnd_eval [where j = 45]) (simp_all add: rne_def)
  have la: "load_ahead_double classes_example view_edge 100 (seg_id seg_edge) None (- 1) 0 =
     Inr (10, 70,
       [(1, car_params), (2, car_params), (3, car_params), (4, car_params), (5, car_params),
        (6, car_params), (7, car_params), (8, car_params), (9, car_params), (10, car_params)])"
    using load_ahead_double_view_edge by (simp add: seg_edge_def)
  have "density_model_double 10 seg_edge 0 =
      Inr (reverse_los_double (los_loop_double ranges_double (4714705859903487 / 2 ^ 46)))"
    unfolding density_model_double_def density_view_edge by (simp only: sum.case)
  then have dm: "density_model_double 10 seg_edge 0 = Inr (Fin 0)"
    unfolding top_band_rounds_to_one by (simp add: reverse_los_double_def rnd_0)
  have los: "level_of_service_in_front_of_vehicle_double classes_example view_edge 100 seg_edge
       (- 1) 0 None False = Inr (Fin 0)"
    unfolding level_of_service_in_front_of_vehicle_double_def la using dm by simp
  have "ran classes_example = {car_params}"
    by (simp add: classes_example_def)
  with los rest show ?thesis
    by (simp add: car_params_def seg_edge_def)
qed

text \<open>
  A vehicle at offset 0 is not ahead of anything: the density is 0 and the score 1.
\<close>

theorem finite_score_range_double_witness:
  "ran classes_example = {car_params} \<and> 0 \<le> pcu car_params \<and> 1 \<le> lanes seg_long
   \<and> level_of_service_in_front_of_vehicle_double classes_example view_entering 100 seg_long (- 1) 0 None False
        = Inr (Fin 1)
   \<and> (0 :: real) \<le> 1 \<and> (1 :: real) \<le> 1"
proof -
  have h1: "\<forall>p \<in> ran classes_example. 0 \<le> pcu p"
    by (simp add: classes_example_def car_params_def)
  have h2: "1 \<le> lanes seg_long" by (simp add: seg_long_def)
  have la: "load_ahead_double classes_example view_entering 100 (seg_id seg_long) None (- 1) 0
      = Inr (0, 0, [])"
    by (simp add: load_ahead_double_def view_entering_eq observations_def fcd_z_def seg_long_def
          fsum_def)
  have n: "n_vehicles_per_mile_double 0 seg_long 0 = Inr 0"
    by (simp add: n_vehicles_per_mile_double_def seg_long_def ending_length_def rnd_numeral rnd_0)
  have l: "los_loop_double ranges_double 0 = Fin 0"
    by (simp add: ranges_double_def rnd_0)
  have v: "level_of_service_in_front_of_vehicle_double classes_example view_entering 100 seg_long
       (- 1) 0 None False = Inr (Fin 1)"
    unfolding level_of_service_in_front_of_vehicle_double_def la
    by (simp add: density_model_double_def n l reverse_los_double_def rnd_1)
  have r: "ran classes_example = {car_params}"
    by (simp add: classes_example_def)
  show ?thesis
    using r h2 v finite_score_range_double [OF h1 h2 v]
    by (simp add: car_params_def)
qed

end
